theory Spec2Isabelle
  imports Main "HOL-Library.Word"
begin

section \<open>Data model (cpu.h, mutex.h, cv.h)\<close>

text \<open>
  \<^verbatim>\<open>enum class Status : uint8_t {Null = 0, READY, RUNNING, BLOCKED, FINISHED}\<close>.
  The specification calls \<open>Null\<close> the status \<open>NEW\<close>.
\<close>

datatype Status = Null | READY | RUNNING | BLOCKED | FINISHED

text \<open>
  A \<^verbatim>\<open>std::shared_ptr<TCB>\<close> is the address of a TCB (a natural number) or null
  (\<open>None\<close>). Every queue of the library is filled only with pointers that were
  dereferenced just before the push, so queue entries are plain addresses. The stack and the
  machine context of a TCB belong to the substrate and are not modelled; \<open>tcb_id\<close> is the
  field \<^verbatim>\<open>uint32_t id\<close>.
\<close>

record TCB =
  status :: Status
  tcb_id :: "32 word"
  join_q :: "nat list"

record cpu =
  curr_thread :: "nat option"
  suspended_thread :: "nat option"

text \<open>\<^verbatim>\<open>int thread_holding_lock\<close> holds \<^verbatim>\<open>static_cast<int>(id)\<close>, the signed reading of the id.\<close>

record mutex =
  waiting_threads :: "nat list"
  thread_holding_lock :: int
  free :: bool

record cv =
  cv_waiting_threads :: "nat list"

text \<open>
  The global state: the TCB heap with its allocation pointer (\<^verbatim>\<open>make_shared\<close> returns the
  next unused address), the CPUs, the mutex and cv objects by address, the static members of
  \<^verbatim>\<open>cpu\<close>, and the log of inter-processor interrupts handed to the substrate.
\<close>

record state =
  tcbs :: "nat \<Rightarrow> TCB"
  heap_top :: nat
  cpus :: "nat \<Rightarrow> cpu"
  mutexes :: "nat \<Rightarrow> mutex"
  cvs :: "nat \<Rightarrow> cv"
  ready_threads :: "nat list"
  sleeping_cpus :: "nat list"
  finished_threads :: "nat list"
  num_threads :: "32 word"
  num_cpus :: "32 word"
  booted :: bool
  ipi_sent :: "nat list"

text \<open>
  How a library function ends. \<open>Returns\<close>: it returned to its caller. \<open>Switches\<close>: it reached
  \<^verbatim>\<open>swapcontext\<close> or \<^verbatim>\<open>setcontext\<close>; the CPU now runs the context of its new current thread,
  and the tag says where the outgoing context was saved (\<open>Set_context\<close>: it was not saved).
  \<open>Throws\<close>: a \<^verbatim>\<open>std::runtime_error\<close> left the function, with the state at the throw.
  \<open>Aborts\<close>: an \<^verbatim>\<open>assert\<close> failed or a null pointer was dereferenced.
\<close>

datatype switch =
  Set_context | Swap_yield | Swap_get_next_thread | Swap_suspend_cpu | Swap_ipi_handler

datatype outcome = Returns state | Switches switch state | Throws state | Aborts

definition and_then :: "outcome \<Rightarrow> (state \<Rightarrow> outcome) \<Rightarrow> outcome" where
  "and_then r f = (case r of Returns s \<Rightarrow> f s | Switches w s \<Rightarrow> Switches w s
                   | Throws s \<Rightarrow> Throws s | Aborts \<Rightarrow> Aborts)"

definition set_status :: "nat \<Rightarrow> Status \<Rightarrow> state \<Rightarrow> state" where
  "set_status t st s = s\<lparr>tcbs := (tcbs s)(t := (tcbs s t)\<lparr>status := st\<rparr>)\<rparr>"

definition set_curr_thread :: "nat \<Rightarrow> nat option \<Rightarrow> state \<Rightarrow> state" where
  "set_curr_thread c p s = s\<lparr>cpus := (cpus s)(c := (cpus s c)\<lparr>curr_thread := p\<rparr>)\<rparr>"

section \<open>cpu.cpp\<close>

text \<open>
  Every function below runs with interrupts disabled and the global guard held: the public
  functions take a \<^verbatim>\<open>kernel_guard\<close> first, and the others are entered from them or from a
  context switch. The interrupt mask and the guard belong to the substrate and are not part of
  the state, so \<^verbatim>\<open>assert_interrupts_disabled()\<close> and \<^verbatim>\<open>assert(cpu::guard == true)\<close> have
  no branch here; every other assertion and every dereference of a pointer that can be null
  has one, ending in \<open>Aborts\<close>.
\<close>

text \<open>
  Modelled from the spec: \<^verbatim>\<open>cpu::interrupt_send\<close> is part of the substrate (libcpu), not of
  the sources; it delivers an inter-processor interrupt to the target CPU. The model records
  the target in \<open>ipi_sent\<close>.
\<close>

definition interrupt_send :: "nat \<Rightarrow> state \<Rightarrow> state" where
  "interrupt_send target s = s\<lparr>ipi_sent := ipi_sent s @ [target]\<rparr>"

text \<open>\<^verbatim>\<open>cpu::fetch_cpu\<close>, cpu.cpp 158-173; \<open>self\<close> is \<^verbatim>\<open>cpu::self()\<close>.\<close>

definition fetch_cpu :: "nat \<Rightarrow> state \<Rightarrow> outcome" where
  "fetch_cpu self s =
     (case sleeping_cpus s of
        [] \<Rightarrow> Returns s
      | next_cpu # rest \<Rightarrow>
          (let s1 = s\<lparr>sleeping_cpus := rest\<rparr> in
           if next_cpu = self then Aborts
           else if curr_thread (cpus s1 next_cpu) \<noteq> suspended_thread (cpus s1 next_cpu) then Aborts
           else if curr_thread (cpus s1 next_cpu) = suspended_thread (cpus s1 self) then Aborts
           else Returns (interrupt_send next_cpu s1)))"

text \<open>\<^verbatim>\<open>cpu::push_to_queue\<close>, cpu.cpp 245-260.\<close>

definition push_to_queue :: "nat \<Rightarrow> nat option \<Rightarrow> state \<Rightarrow> outcome" where
  "push_to_queue self thread s =
     (case thread of
        None \<Rightarrow> Aborts
      | Some t \<Rightarrow>
          if status (tcbs s t) = FINISHED then Aborts
          else if status (tcbs s t) = READY then Aborts
          else if \<not> (status (tcbs s t) = RUNNING \<or> status (tcbs s t) = BLOCKED
                      \<or> status (tcbs s t) = Null) then Aborts
          else fetch_cpu self ((set_status t READY s)\<lparr>ready_threads := ready_threads s @ [t]\<rparr>))"

text \<open>
  The frame of \<^verbatim>\<open>push_to_queue\<close> that the termination of the two draining functions below rests
  on: it changes no CPU and no queue stored in a TCB.
\<close>

lemma fetch_cpu_frame:
  "fetch_cpu self s = Returns s' \<Longrightarrow> cpus s' = cpus s \<and> tcbs s' = tcbs s \<and> cvs s' = cvs s"
  by (auto simp: fetch_cpu_def interrupt_send_def Let_def split: list.splits if_splits)

lemma push_to_queue_frame:
  "push_to_queue self p s = Returns s' \<Longrightarrow>
   cpus s' = cpus s \<and> cvs s' = cvs s \<and> (\<forall>u. join_q (tcbs s' u) = join_q (tcbs s u))"
  by (auto simp: push_to_queue_def set_status_def split: option.splits if_splits
           dest!: fetch_cpu_frame)

text \<open>
  \<^verbatim>\<open>cpu::clear_finished_threads\<close>, cpu.cpp 268-277. The loop is
  \<^verbatim>\<open>for (auto finished_thread : cpu::finished_threads)\<close>: the loop variable is a copy of the
  vector's element, and \<^verbatim>\<open>finished_thread.reset()\<close> sets that copy to null.
\<close>

fun clear_finished_loop :: "nat option \<Rightarrow> nat list \<Rightarrow> state \<Rightarrow> outcome" where
  "clear_finished_loop curr_tcb [] s = Returns s"
| "clear_finished_loop curr_tcb (ft # rest) s =
     (let finished_thread = Some ft in
      if status (tcbs s ft) \<noteq> FINISHED then Aborts
      else if finished_thread = curr_tcb then Aborts
      else (let finished_thread = (None :: nat option) in clear_finished_loop curr_tcb rest s))"

definition clear_finished_threads :: "nat option \<Rightarrow> state \<Rightarrow> outcome" where
  "clear_finished_threads curr_tcb s = clear_finished_loop curr_tcb (finished_threads s) s"

text \<open>\<^verbatim>\<open>cpu::suspend_cpu\<close>, cpu.cpp 121-138.\<close>

definition suspend_cpu :: "nat \<Rightarrow> state \<Rightarrow> outcome" where
  "suspend_cpu self s =
     (case curr_thread (cpus s self) of
        Some prev \<Rightarrow>
          (let s1 = set_curr_thread self (suspended_thread (cpus s self)) s in
           if curr_thread (cpus s1 self) = None then Aborts
           else Switches Swap_suspend_cpu s1)
      | None \<Rightarrow>
          (let s1 = set_curr_thread self (suspended_thread (cpus s self)) s in
           if curr_thread (cpus s1 self) = None then Aborts
           else Switches Set_context s1))"

text \<open>
  One turn of the loop of \<^verbatim>\<open>cpu::suspend_helper\<close>, cpu.cpp 140-149, the body of the idle TCB:
  the CPU registers itself as idle; it then releases the guard and waits for an interrupt.
\<close>

definition suspend_helper :: "nat \<Rightarrow> state \<Rightarrow> state" where
  "suspend_helper self s = s\<lparr>sleeping_cpus := sleeping_cpus s @ [self]\<rparr>"

text \<open>\<^verbatim>\<open>cpu::get_next_thread\<close>, cpu.cpp 212-238, up to its context switch.\<close>

definition get_next_thread :: "nat \<Rightarrow> state \<Rightarrow> outcome" where
  "get_next_thread self s =
     (if ready_threads s \<noteq> [] then
        (case curr_thread (cpus s self) of
           None \<Rightarrow> Aborts
         | Some prev \<Rightarrow>
             (let next = hd (ready_threads s);
                  s1 = set_curr_thread self (Some next) s;
                  s2 = s1\<lparr>ready_threads := tl (ready_threads s1)\<rparr>
              in if status (tcbs s2 next) \<noteq> READY then Aborts
                 else if status (tcbs s2 prev) \<noteq> BLOCKED then Aborts
                 else Switches Swap_get_next_thread (set_status next RUNNING s2)))
      else suspend_cpu self s)"

text \<open>
  The rest of \<^verbatim>\<open>get_next_thread\<close>, run when the thread \<open>prev\<close> that switched away is
  dispatched again: after the \<^verbatim>\<open>swapcontext\<close> of line 231 it sweeps the finished list
  (lines 232-234); after the one in \<^verbatim>\<open>suspend_cpu\<close> it returns at once.
\<close>

definition get_next_thread_resumed :: "switch \<Rightarrow> nat option \<Rightarrow> state \<Rightarrow> outcome" where
  "get_next_thread_resumed saved_at prev s =
     (if saved_at = Swap_get_next_thread then clear_finished_threads prev s else Returns s)"

text \<open>\<^verbatim>\<open>cpu::ipi_handler\<close>, cpu.cpp 81-94.\<close>

definition ipi_handler :: "nat \<Rightarrow> state \<Rightarrow> outcome" where
  "ipi_handler self s =
     (if ready_threads s \<noteq> [] then
        (let prev = curr_thread (cpus s self);
             next = hd (ready_threads s);
             s1 = set_curr_thread self (Some next) s;
             s2 = s1\<lparr>ready_threads := tl (ready_threads s1)\<rparr>
         in if status (tcbs s2 next) \<noteq> READY then Aborts
            else if prev = None then Aborts
            else Switches Swap_ipi_handler (set_status next RUNNING s2))
      else Returns s)"

text \<open>\<^verbatim>\<open>cpu::begin_process\<close>, cpu.cpp 191-203.\<close>

definition begin_process :: "nat \<Rightarrow> state \<Rightarrow> outcome" where
  "begin_process self s =
     (if ready_threads s \<noteq> [] then
        (let next = hd (ready_threads s);
             s1 = set_curr_thread self (Some next) s;
             s2 = s1\<lparr>ready_threads := tl (ready_threads s1)\<rparr>
         in Switches Set_context (set_status next RUNNING s2))
      else suspend_cpu self s)"

text \<open>
  \<^verbatim>\<open>TCB::TCB\<close>, cpu.cpp 13-18, behind \<^verbatim>\<open>std::make_shared<TCB>()\<close>: the new TCB lies at the
  next unused address; the result is that address and the new state.
\<close>

definition TCB_ctor :: "state \<Rightarrow> nat \<times> state" where
  "TCB_ctor s =
     (heap_top s,
      s\<lparr>tcbs := (tcbs s)(heap_top s := \<lparr>status = Null, tcb_id = num_threads s, join_q = []\<rparr>),
        num_threads := num_threads s + 1,
        heap_top := Suc (heap_top s)\<rparr>)"

text \<open>
  \<^verbatim>\<open>cpu::cpu\<close>, cpu.cpp 287-332; \<open>func\<close> is the start function (\<open>None\<close>: \<^verbatim>\<open>nullptr\<close>).
\<close>

definition cpu_ctor :: "nat \<Rightarrow> nat option \<Rightarrow> state \<Rightarrow> outcome" where
  "cpu_ctor self func s =
     (let s1 = s\<lparr>booted := True\<rparr>;
          s2 = s1\<lparr>num_cpus := num_cpus s1 + 1\<rparr>;
          (idle, s3) = TCB_ctor s2;
          s4 = s3\<lparr>cpus := (cpus s3)(self := (cpus s3 self)\<lparr>suspended_thread := Some idle\<rparr>)\<rparr>
      in if func \<noteq> None then
           (let (first_thread, s5) = TCB_ctor s4
            in and_then (push_to_queue self (Some first_thread) s5) (begin_process self))
         else begin_process self s4)"

section \<open>mutex.cpp\<close>

text \<open>\<^verbatim>\<open>mutex::mutex\<close>, mutex.cpp 13-14.\<close>

definition mutex_ctor :: mutex where
  "mutex_ctor = \<lparr>waiting_threads = [], thread_holding_lock = - 1, free = True\<rparr>"

text \<open>\<^verbatim>\<open>mutex::internal_lock\<close>, mutex.cpp 23-45, on the mutex at address \<open>m\<close>.\<close>

definition internal_lock :: "nat \<Rightarrow> nat \<Rightarrow> state \<Rightarrow> outcome" where
  "internal_lock self m s =
     (case curr_thread (cpus s self) of
        None \<Rightarrow> Aborts
      | Some t \<Rightarrow>
          if \<not> free (mutexes s m) then
            (let s1 = set_status t BLOCKED s;
                 s2 = s1\<lparr>mutexes := (mutexes s1)(m := (mutexes s1 m)
                          \<lparr>waiting_threads := waiting_threads (mutexes s1 m) @ [t]\<rparr>)\<rparr>
             in get_next_thread self s2)
          else
            Returns (s\<lparr>mutexes := (mutexes s)(m := (mutexes s m)
                          \<lparr>thread_holding_lock := sint (tcb_id (tcbs s t)), free := False\<rparr>)\<rparr>))"


text \<open>\<^verbatim>\<open>mutex::internal_unlock\<close>, mutex.cpp 54-79.\<close>

definition internal_unlock :: "nat \<Rightarrow> nat \<Rightarrow> state \<Rightarrow> outcome" where
  "internal_unlock self m s =
     (case curr_thread (cpus s self) of
        None \<Rightarrow> Aborts
      | Some t \<Rightarrow>
          if thread_holding_lock (mutexes s m) \<noteq> sint (tcb_id (tcbs s t)) then Throws s
          else
            (let s1 = s\<lparr>mutexes := (mutexes s)(m := (mutexes s m)\<lparr>free := True\<rparr>)\<rparr> in
             case waiting_threads (mutexes s1 m) of
               [] \<Rightarrow> Returns s1
             | waiting_thread # rest \<Rightarrow>
                 (let s2 = s1\<lparr>mutexes := (mutexes s1)(m := (mutexes s1 m)
                               \<lparr>waiting_threads := rest\<rparr>)\<rparr>
                  in if status (tcbs s2 waiting_thread) = FINISHED then Aborts
                     else
                       (let s3 = s2\<lparr>mutexes := (mutexes s2)(m := (mutexes s2 m)
                                  \<lparr>thread_holding_lock := sint (tcb_id (tcbs s2 waiting_thread)),
                                   free := False\<rparr>)\<rparr>
                        in push_to_queue self (Some waiting_thread) s3))))"

text \<open>
  \<^verbatim>\<open>mutex::lock\<close> and \<^verbatim>\<open>mutex::unlock\<close>, mutex.cpp 81-89: the internal functions inside a
  \<^verbatim>\<open>kernel_guard\<close>. The guard and the interrupt mask serialise the library's functions; the
  model runs each of them as one step and leaves both out.
\<close>

definition lock :: "nat \<Rightarrow> nat \<Rightarrow> state \<Rightarrow> outcome" where
  "lock self m s = internal_lock self m s"

definition unlock :: "nat \<Rightarrow> nat \<Rightarrow> state \<Rightarrow> outcome" where
  "unlock self m s = internal_unlock self m s"

section \<open>cv.cpp\<close>

text \<open>\<^verbatim>\<open>cv::wait\<close>, cv.cpp 8-32, on the condition variable at address \<open>c\<close>, up to step 3.\<close>

definition wait :: "nat \<Rightarrow> nat \<Rightarrow> nat \<Rightarrow> state \<Rightarrow> outcome" where
  "wait self c mtx s =
     (case curr_thread (cpus s self) of
        None \<Rightarrow> Aborts
      | Some t \<Rightarrow>
          if thread_holding_lock (mutexes s mtx) = sint (tcb_id (tcbs s t)) then
            and_then (internal_unlock self mtx s) (\<lambda>s1.
              case curr_thread (cpus s1 self) of
                None \<Rightarrow> Aborts
              | Some t1 \<Rightarrow>
                  (let s2 = set_status t1 BLOCKED s1;
                       s3 = s2\<lparr>cvs := (cvs s2)(c := (cvs s2 c)
                                \<lparr>cv_waiting_threads := cv_waiting_threads (cvs s2 c) @ [t1]\<rparr>)\<rparr>
                   in get_next_thread self s3))
          else Throws s)"

text \<open>
  Step 4 of \<^verbatim>\<open>cv::wait\<close>, run when the waiting thread is dispatched again, on the CPU
  \<open>self\<close> that dispatched it: \<^verbatim>\<open>get_next_thread\<close> finishes, then \<^verbatim>\<open>mtx.internal_lock()\<close>.
\<close>

definition wait_resumed :: "switch \<Rightarrow> nat option \<Rightarrow> nat \<Rightarrow> nat \<Rightarrow> state \<Rightarrow> outcome" where
  "wait_resumed saved_at prev self mtx s =
     and_then (get_next_thread_resumed saved_at prev s) (internal_lock self mtx)"

text \<open>\<^verbatim>\<open>cv::signal\<close>, cv.cpp 34-46.\<close>

definition signal :: "nat \<Rightarrow> nat \<Rightarrow> state \<Rightarrow> outcome" where
  "signal self c s =
     (case cv_waiting_threads (cvs s c) of
        [] \<Rightarrow> Returns s
      | next_thread # rest \<Rightarrow>
          push_to_queue self (Some next_thread)
            (s\<lparr>cvs := (cvs s)(c := (cvs s c)\<lparr>cv_waiting_threads := rest\<rparr>)\<rparr>))"

text \<open>\<^verbatim>\<open>cv::broadcast\<close>, cv.cpp 48-59.\<close>

function broadcast :: "nat \<Rightarrow> nat \<Rightarrow> state \<Rightarrow> outcome" where
  "broadcast self c s =
     (case cv_waiting_threads (cvs s c) of
        [] \<Rightarrow> Returns s
      | next_thread # rest \<Rightarrow>
          (case push_to_queue self (Some next_thread)
                  (s\<lparr>cvs := (cvs s)(c := (cvs s c)\<lparr>cv_waiting_threads := rest\<rparr>)\<rparr>) of
             Returns s' \<Rightarrow> broadcast self c s'
           | Switches w s' \<Rightarrow> Switches w s'
           | Throws s' \<Rightarrow> Throws s'
           | Aborts \<Rightarrow> Aborts))"
  by pat_completeness auto
termination
  by (relation "measure (\<lambda>(self, c, s). length (cv_waiting_threads (cvs s c)))")
     (auto dest!: push_to_queue_frame)

declare broadcast.simps [simp del]

section \<open>thread.cpp\<close>

text \<open>\<^verbatim>\<open>thread::thread\<close>, thread.cpp 15-39. The handle's \<^verbatim>\<open>this_thread\<close> is the new TCB's
  address, \<open>heap_top s\<close>.\<close>

definition thread_ctor :: "nat \<Rightarrow> nat option \<Rightarrow> state \<Rightarrow> outcome" where
  "thread_ctor self func s =
     (if func = None then Aborts
      else if \<not> booted s then Aborts
      else (let (tcb, s1) = TCB_ctor s in push_to_queue self (Some tcb) s1))"

text \<open>The loop of \<^verbatim>\<open>thread::thread_execution\<close>, thread.cpp 73-77.\<close>

function drain_join_q :: "nat \<Rightarrow> state \<Rightarrow> outcome" where
  "drain_join_q self s =
     (case curr_thread (cpus s self) of
        None \<Rightarrow> Aborts
      | Some t \<Rightarrow>
          (case join_q (tcbs s t) of
             [] \<Rightarrow> Returns s
           | thread # rest \<Rightarrow>
               (case push_to_queue self (Some thread)
                       (s\<lparr>tcbs := (tcbs s)(t := (tcbs s t)\<lparr>join_q := rest\<rparr>)\<rparr>) of
                  Returns s' \<Rightarrow> drain_join_q self s'
                | Switches w s' \<Rightarrow> Switches w s'
                | Throws s' \<Rightarrow> Throws s'
                | Aborts \<Rightarrow> Aborts)))"
  by pat_completeness auto
termination
  by (relation "measure (\<lambda>(self, s). case curr_thread (cpus s self) of None \<Rightarrow> 0
                                       | Some t \<Rightarrow> length (join_q (tcbs s t)))")
     (auto dest!: push_to_queue_frame)

declare drain_join_q.simps [simp del]

text \<open>
  \<^verbatim>\<open>thread::thread_execution\<close>, thread.cpp 57-97, from the return of the thread's body
  \<^verbatim>\<open>func(arg)\<close> (line 67) on.
\<close>

definition thread_execution :: "nat \<Rightarrow> state \<Rightarrow> outcome" where
  "thread_execution self s =
     and_then (drain_join_q self s) (\<lambda>s1.
       case curr_thread (cpus s1 self) of
         None \<Rightarrow> Aborts
       | Some t \<Rightarrow>
           (let s2 = set_status t FINISHED s1;
                s3 = s2\<lparr>finished_threads := finished_threads s2 @ [t]\<rparr>
            in if ready_threads s3 \<noteq> [] then
                 (let next = hd (ready_threads s3);
                      s4 = set_curr_thread self (Some next) s3;
                      s5 = s4\<lparr>ready_threads := tl (ready_threads s4)\<rparr>
                  in Switches Set_context (set_status next RUNNING s5))
               else suspend_cpu self s3))"

text \<open>\<^verbatim>\<open>thread::yield\<close>, thread.cpp 99-127, up to its context switch.\<close>

definition yield :: "nat \<Rightarrow> state \<Rightarrow> outcome" where
  "yield self s =
     (if \<not> booted s then Aborts
      else if curr_thread (cpus s self) = None then Aborts
      else if ready_threads s \<noteq> [] then
        (let prev = curr_thread (cpus s self);
             next = hd (ready_threads s);
             s1 = set_curr_thread self (Some next) s;
             s2 = s1\<lparr>ready_threads := tl (ready_threads s1)\<rparr>
         in and_then (push_to_queue self prev s2) (\<lambda>s3.
              case curr_thread (cpus s3 self) of
                None \<Rightarrow> Aborts
              | Some cur \<Rightarrow> Switches Swap_yield (set_status cur RUNNING s3)))
      else Returns s)"

text \<open>The rest of \<^verbatim>\<open>yield\<close>, run when the yielding thread \<open>prev\<close> is dispatched again
  (thread.cpp 123-124).\<close>

definition yield_resumed :: "nat option \<Rightarrow> state \<Rightarrow> outcome" where
  "yield_resumed prev s = clear_finished_threads prev s"

text \<open>
  \<^verbatim>\<open>thread::join\<close>, thread.cpp 129-144, up to the context switch; \<open>this_thread\<close> is the result
  of \<^verbatim>\<open>this_thread.lock()\<close> on the handle's weak pointer.
\<close>

definition join :: "nat \<Rightarrow> nat option \<Rightarrow> state \<Rightarrow> outcome" where
  "join self this_thread s =
     (case this_thread of
        None \<Rightarrow> Returns s
      | Some temp_this_thread \<Rightarrow>
          if status (tcbs s temp_this_thread) \<noteq> FINISHED then
            (case curr_thread (cpus s self) of
               None \<Rightarrow> Aborts
             | Some t \<Rightarrow>
                 (let s1 = set_status t BLOCKED s;
                      s2 = s1\<lparr>tcbs := (tcbs s1)(temp_this_thread := (tcbs s1 temp_this_thread)
                               \<lparr>join_q := join_q (tcbs s1 temp_this_thread) @ [t]\<rparr>)\<rparr>
                  in get_next_thread self s2))
          else Returns s)"

text \<open>\<^verbatim>\<open>cpu::timer_interrupt_handler\<close>, cpu.cpp 100-110.\<close>

definition timer_interrupt_handler :: "nat \<Rightarrow> state \<Rightarrow> outcome" where
  "timer_interrupt_handler self s =
     (if curr_thread (cpus s self) = suspended_thread (cpus s self) then Returns s
      else yield self s)"

section \<open>The library as a transition system\<close>

text \<open>
  The calls an application thread can make, with the parts of \<^verbatim>\<open>yield\<close>,
  \<^verbatim>\<open>get_next_thread\<close> (reached from \<^verbatim>\<open>lock\<close> and \<^verbatim>\<open>join\<close>) and \<^verbatim>\<open>cv::wait\<close> that
  run when a thread that switched away is dispatched again.
\<close>

datatype call =
    Create "nat option" | Yield | Join "nat option" | Lock nat | Unlock nat | Wait nat nat
  | Signal nat | Broadcast nat | End_of_body
  | Yield_resumed "nat option" | Get_next_thread_resumed switch "nat option"
  | Wait_resumed switch "nat option" nat

fun run :: "nat \<Rightarrow> call \<Rightarrow> state \<Rightarrow> outcome" where
  "run self (Create func) s = thread_ctor self func s"
| "run self Yield s = yield self s"
| "run self (Join this_thread) s = join self this_thread s"
| "run self (Lock m) s = lock self m s"
| "run self (Unlock m) s = unlock self m s"
| "run self (Wait c m) s = wait self c m s"
| "run self (Signal c) s = signal self c s"
| "run self (Broadcast c) s = broadcast self c s"
| "run self End_of_body s = thread_execution self s"
| "run self (Yield_resumed prev) s = yield_resumed prev s"
| "run self (Get_next_thread_resumed saved_at prev) s = get_next_thread_resumed saved_at prev s"
| "run self (Wait_resumed saved_at prev m) s = wait_resumed saved_at prev self m s"

text \<open>
  The state a function leaves behind: none when it aborts the process. After a raised error
  the application goes on in the state at the throw.
\<close>

fun next_state :: "outcome \<Rightarrow> state option" where
  "next_state (Returns s) = Some s"
| "next_state (Switches w s) = Some s"
| "next_state (Throws s) = Some s"
| "next_state Aborts = None"

text \<open>
  Application code runs on the current thread of a CPU that is not suspended, that is, whose
  current thread is not its idle TCB (the idle TCB runs \<^verbatim>\<open>suspend_helper\<close> only, and the timer
  handler returns at once on a suspended CPU).
\<close>

definition runs_user_thread :: "nat \<Rightarrow> state \<Rightarrow> bool" where
  "runs_user_thread self s =
     (case curr_thread (cpus s self) of
        None \<Rightarrow> False
      | Some t \<Rightarrow> suspended_thread (cpus s self) \<noteq> Some t)"

text \<open>
  One step of the system: a CPU starts (\<^verbatim>\<open>cpu::cpu\<close>), the thread running on a CPU makes a
  call, a CPU takes an inter-processor or a timer interrupt, or the idle TCB of a suspended CPU
  runs one turn of its loop. The global guard serialises these functions, so each is one step.
  A step may be taken in any state that enables it; the steps of the running system are among
  them.
\<close>

inductive step :: "state \<Rightarrow> state \<Rightarrow> bool" where
  cpu_start: "next_state (cpu_ctor self func s) = Some s' \<Longrightarrow> step s s'"
| library_call: "runs_user_thread self s \<Longrightarrow> next_state (run self c s) = Some s' \<Longrightarrow> step s s'"
| ipi: "next_state (ipi_handler self s) = Some s' \<Longrightarrow> step s s'"
| timer: "next_state (timer_interrupt_handler self s) = Some s' \<Longrightarrow> step s s'"
| idle: "curr_thread (cpus s self) = suspended_thread (cpus s self) \<Longrightarrow>
         step s (suspend_helper self s)"

text \<open>
  The steps of the running system: those above that the control flow of the library allows.
  A CPU is constructed once. An inter-processor interrupt reaches a CPU only after
  \<^verbatim>\<open>fetch_cpu\<close> popped it from the idle-CPU queue, so the CPU is suspended and not on that
  queue; and the idle TCB registers its CPU only while the CPU is suspended and not registered.
\<close>

inductive sched_step :: "state \<Rightarrow> state \<Rightarrow> bool" where
  cpu_start: "curr_thread (cpus s self) = None \<Longrightarrow> suspended_thread (cpus s self) = None \<Longrightarrow>
              next_state (cpu_ctor self func s) = Some s' \<Longrightarrow> sched_step s s'"
| library_call: "runs_user_thread self s \<Longrightarrow> next_state (run self c s) = Some s' \<Longrightarrow>
              sched_step s s'"
| ipi: "curr_thread (cpus s self) = suspended_thread (cpus s self) \<Longrightarrow>
        suspended_thread (cpus s self) \<noteq> None \<Longrightarrow> self \<notin> set (sleeping_cpus s) \<Longrightarrow>
        next_state (ipi_handler self s) = Some s' \<Longrightarrow> sched_step s s'"
| timer: "next_state (timer_interrupt_handler self s) = Some s' \<Longrightarrow> sched_step s s'"
| idle: "curr_thread (cpus s self) = suspended_thread (cpus s self) \<Longrightarrow>
         suspended_thread (cpus s self) \<noteq> None \<Longrightarrow> self \<notin> set (sleeping_cpus s) \<Longrightarrow>
         sched_step s (suspend_helper self s)"

text \<open>
  The calls that release mutex \<open>m\<close>: \<^verbatim>\<open>unlock\<close> on it and \<^verbatim>\<open>cv::wait\<close> with it.
\<close>

fun releases :: "call \<Rightarrow> nat \<Rightarrow> bool" where
  "releases (Unlock m') m = (m' = m)"
| "releases (Wait c m') m = (m' = m)"
| "releases c m = False"

text \<open>
  The steps of the system other than a release of mutex \<open>m\<close> by a thread that carries the
  id of thread \<open>w\<close>: every step of \<open>step\<close> by a CPU start, an interrupt or the idle loop, and
  every call except \<^verbatim>\<open>unlock\<close> on \<open>m\<close> and \<^verbatim>\<open>cv::wait\<close> with \<open>m\<close> made by a thread with that
  id.
\<close>

inductive other_step :: "nat \<Rightarrow> nat \<Rightarrow> state \<Rightarrow> state \<Rightarrow> bool" for w m where
  other_cpu_start: "next_state (cpu_ctor self func s) = Some s' \<Longrightarrow> other_step w m s s'"
| other_call: "runs_user_thread self s \<Longrightarrow> curr_thread (cpus s self) = Some u \<Longrightarrow>
     \<not> (releases c m \<and> sint (tcb_id (tcbs s u)) = sint (tcb_id (tcbs s w))) \<Longrightarrow>
     next_state (run self c s) = Some s' \<Longrightarrow> other_step w m s s'"
| other_ipi: "next_state (ipi_handler self s) = Some s' \<Longrightarrow> other_step w m s s'"
| other_timer: "next_state (timer_interrupt_handler self s) = Some s' \<Longrightarrow> other_step w m s s'"
| other_idle: "curr_thread (cpus s self) = suspended_thread (cpus s self) \<Longrightarrow>
         other_step w m s (suspend_helper self s)"

section \<open>Concrete states\<close>

text \<open>The state set up by the static initialisers; every mutex and cv object is as its
  constructor leaves it.\<close>

definition boot_state :: state where
  "boot_state =
     \<lparr>tcbs = (\<lambda>a. \<lparr>status = Null, tcb_id = 0, join_q = []\<rparr>),
      heap_top = 0,
      cpus = (\<lambda>c. \<lparr>curr_thread = None, suspended_thread = None\<rparr>),
      mutexes = (\<lambda>m. mutex_ctor),
      cvs = (\<lambda>c. \<lparr>cv_waiting_threads = []\<rparr>),
      ready_threads = [], sleeping_cpus = [], finished_threads = [],
      num_threads = 0, num_cpus = 0, booted = False, ipi_sent = []\<rparr>"

text \<open>One CPU (number 0, idle TCB at address 0) running the first thread (address 1, id 1).\<close>

definition running_state :: state where
  "running_state =
     boot_state\<lparr>tcbs := (tcbs boot_state)
                   (0 := \<lparr>status = Null, tcb_id = 0, join_q = []\<rparr>,
                    1 := \<lparr>status = RUNNING, tcb_id = 1, join_q = []\<rparr>),
                 heap_top := 2,
                 cpus := (cpus boot_state)(0 := \<lparr>curr_thread = Some 1, suspended_thread = Some 0\<rparr>),
                 num_threads := 2, num_cpus := 1, booted := True\<rparr>"

text \<open>The same after thread 1 locked mutex 0, and after it unlocked it again.\<close>

definition held_state :: state where
  "held_state =
     running_state\<lparr>mutexes := (mutexes running_state)
        (0 := \<lparr>waiting_threads = [], thread_holding_lock = 1, free = False\<rparr>)\<rparr>"

definition released_state :: state where
  "released_state =
     running_state\<lparr>mutexes := (mutexes running_state)
        (0 := \<lparr>waiting_threads = [], thread_holding_lock = 1, free = True\<rparr>)\<rparr>"

text \<open>
  Two CPUs: CPU 1 (idle TCB 0) is suspended and registered as idle, CPU 0 (idle TCB 1) runs
  thread 2, which holds mutex 0; thread 3 is blocked on that mutex.
\<close>

definition contended_state :: state where
  "contended_state =
     boot_state\<lparr>tcbs := (tcbs boot_state)
                   (0 := \<lparr>status = Null, tcb_id = 0, join_q = []\<rparr>,
                    1 := \<lparr>status = Null, tcb_id = 1, join_q = []\<rparr>,
                    2 := \<lparr>status = RUNNING, tcb_id = 2, join_q = []\<rparr>,
                    3 := \<lparr>status = BLOCKED, tcb_id = 3, join_q = []\<rparr>),
                 heap_top := 4,
                 cpus := (cpus boot_state)
                   (0 := \<lparr>curr_thread = Some 2, suspended_thread = Some 1\<rparr>,
                    1 := \<lparr>curr_thread = Some 0, suspended_thread = Some 0\<rparr>),
                 mutexes := (mutexes boot_state)
                   (0 := \<lparr>waiting_threads = [3], thread_holding_lock = 2, free = False\<rparr>),
                 sleeping_cpus := [1],
                 num_threads := 4, num_cpus := 2, booted := True, ipi_sent := [1]\<rparr>"

text \<open>
  One CPU running thread 1 again after thread 2 (created by thread 1, which then yielded to
  it) has returned from its body: thread 2 is on the finished list.
\<close>

definition swept_state :: state where
  "swept_state =
     boot_state\<lparr>tcbs := (tcbs boot_state)
                   (0 := \<lparr>status = Null, tcb_id = 0, join_q = []\<rparr>,
                    1 := \<lparr>status = RUNNING, tcb_id = 1, join_q = []\<rparr>,
                    2 := \<lparr>status = FINISHED, tcb_id = 2, join_q = []\<rparr>),
                 heap_top := 3,
                 cpus := (cpus boot_state)(0 := \<lparr>curr_thread = Some 1, suspended_thread = Some 0\<rparr>),
                 finished_threads := [2],
                 num_threads := 3, num_cpus := 1, booted := True\<rparr>"

text \<open>
  Thread 1 of \<open>released_state\<close> after calling \<^verbatim>\<open>cv::wait\<close> on cv 0 with mutex 0: blocked on the
  cv, the CPU suspended.
\<close>

definition waiting_state :: state where
  "waiting_state =
     released_state\<lparr>tcbs := (tcbs released_state)
                        (1 := \<lparr>status = BLOCKED, tcb_id = 1, join_q = []\<rparr>),
                     cpus := (cpus released_state)
                        (0 := \<lparr>curr_thread = Some 0, suspended_thread = Some 0\<rparr>),
                     cvs := (cvs released_state)(0 := \<lparr>cv_waiting_threads = [1]\<rparr>)\<rparr>"

text \<open>
  One CPU running thread 2, created by thread 1, which called \<^verbatim>\<open>join\<close> on it and is blocked
  on its join waitlist.
\<close>

definition joined_state :: state where
  "joined_state =
     boot_state\<lparr>tcbs := (tcbs boot_state)
                   (0 := \<lparr>status = Null, tcb_id = 0, join_q = []\<rparr>,
                    1 := \<lparr>status = BLOCKED, tcb_id = 1, join_q = []\<rparr>,
                    2 := \<lparr>status = RUNNING, tcb_id = 2, join_q = [1]\<rparr>),
                 heap_top := 3,
                 cpus := (cpus boot_state)(0 := \<lparr>curr_thread = Some 2, suspended_thread = Some 0\<rparr>),
                 num_threads := 3, num_cpus := 1, booted := True\<rparr>"

text \<open>
  \<open>contended_state\<close> after thread 2 unlocked mutex 0: the mutex went to thread 3, which is
  \<open>READY\<close>; and the same after thread 2 called \<^verbatim>\<open>lock\<close> on the mutex again: thread 2 is
  blocked on it and CPU 0 runs thread 3.
\<close>

definition handed_state :: state where
  "handed_state =
     contended_state\<lparr>tcbs := (tcbs contended_state)
                          (3 := \<lparr>status = READY, tcb_id = 3, join_q = []\<rparr>),
                      mutexes := (mutexes contended_state)
                          (0 := \<lparr>waiting_threads = [], thread_holding_lock = 3, free = False\<rparr>),
                      ready_threads := [3], sleeping_cpus := [], ipi_sent := [1, 1]\<rparr>"

definition resumed_state :: state where
  "resumed_state =
     handed_state\<lparr>tcbs := (tcbs handed_state)
                       (2 := \<lparr>status = BLOCKED, tcb_id = 2, join_q = []\<rparr>,
                        3 := \<lparr>status = RUNNING, tcb_id = 3, join_q = []\<rparr>),
                   cpus := (cpus handed_state)
                       (0 := \<lparr>curr_thread = Some 3, suspended_thread = Some 1\<rparr>),
                   mutexes := (mutexes handed_state)
                       (0 := \<lparr>waiting_threads = [2], thread_holding_lock = 3, free = False\<rparr>),
                   ready_threads := []\<rparr>"

section \<open>Conditions used in the statements\<close>

text \<open>
  The three assertions of \<^verbatim>\<open>fetch_cpu\<close> on the CPU at the head of the idle-CPU queue: it is
  another CPU, it is suspended (its current thread is its idle TCB, invariants I4 and I5), and
  its idle TCB is not the caller's.
\<close>

definition fetch_cpu_asserts :: "nat \<Rightarrow> state \<Rightarrow> bool" where
  "fetch_cpu_asserts self s =
     (case sleeping_cpus s of
        [] \<Rightarrow> True
      | d # rest \<Rightarrow> d \<noteq> self \<and> curr_thread (cpus s d) = suspended_thread (cpus s d)
                     \<and> curr_thread (cpus s d) \<noteq> suspended_thread (cpus s self))"

text \<open>The statuses \<^verbatim>\<open>push_to_queue\<close> accepts (its assertions, cpu.cpp 252-254).\<close>

definition pushable :: "Status \<Rightarrow> bool" where
  "pushable st = (st = Null \<or> st = RUNNING \<or> st = BLOCKED)"

text \<open>The assertions of \<^verbatim>\<open>fetch_cpu\<close> hold for every CPU on the idle-CPU queue.\<close>

definition sleepers_ok :: "nat \<Rightarrow> state \<Rightarrow> bool" where
  "sleepers_ok self s =
     list_all (\<lambda>d. d \<noteq> self \<and> curr_thread (cpus s d) = suspended_thread (cpus s d)
                    \<and> curr_thread (cpus s d) \<noteq> suspended_thread (cpus s self))
       (sleeping_cpus s)"

text \<open>
  The state after \<^verbatim>\<open>push_to_queue\<close> ran on each thread of \<open>js\<close> in turn: all are \<open>READY\<close> and
  appended to the ready queue in order, and as many idle CPUs as there are were popped and sent
  an interrupt.
\<close>

definition woken :: "nat list \<Rightarrow> state \<Rightarrow> state" where
  "woken js s =
     s\<lparr>tcbs := (\<lambda>u. if u \<in> set js then (tcbs s u)\<lparr>status := READY\<rparr> else tcbs s u),
       ready_threads := ready_threads s @ js,
       sleeping_cpus := drop (length js) (sleeping_cpus s),
       ipi_sent := ipi_sent s @ take (length js) (sleeping_cpus s)\<rparr>"

text \<open>
  Thread \<open>w\<close> owns mutex \<open>m\<close>: the owner field holds its id and the free flag is clear.
\<close>

definition owns :: "nat \<Rightarrow> nat \<Rightarrow> state \<Rightarrow> bool" where
  "owns w m s =
     (thread_holding_lock (mutexes s m) = sint (tcb_id (tcbs s w)) \<and> \<not> free (mutexes s m))"

text \<open>The states the system reaches from the boot state.\<close>

inductive reachable :: "state \<Rightarrow> bool" where
  boot: "reachable boot_state"
| step: "reachable s \<Longrightarrow> step s s' \<Longrightarrow> reachable s'"


text \<open>The states of the running system.\<close>

inductive running :: "state \<Rightarrow> bool" where
  boot: "running boot_state"
| step: "running s \<Longrightarrow> sched_step s s' \<Longrightarrow> running s'"

text \<open>
  Invariant I2 of the specification: every TCB on the ready queue is \<open>READY\<close>, every TCB on a
  mutex, cv or join waitlist is \<open>BLOCKED\<close>, every TCB on the finished list is \<open>FINISHED\<close>.
\<close>

definition I2 :: "state \<Rightarrow> bool" where
  "I2 s =
     ((\<forall>t\<in>set (ready_threads s). status (tcbs s t) = READY) \<and>
      (\<forall>m. \<forall>t\<in>set (waiting_threads (mutexes s m)). status (tcbs s t) = BLOCKED) \<and>
      (\<forall>c. \<forall>t\<in>set (cv_waiting_threads (cvs s c)). status (tcbs s t) = BLOCKED) \<and>
      (\<forall>u. \<forall>t\<in>set (join_q (tcbs s u)). status (tcbs s t) = BLOCKED) \<and>
      (\<forall>t\<in>set (finished_threads s). status (tcbs s t) = FINISHED))"

section \<open>The scheduler's invariant\<close>

text \<open>
  I2 alone is not preserved by the steps; the invariant that is needs to say where a TCB can
  be. The queues of the library are the ready queue, the finished list and the waitlists of the
  mutexes, the condition variables and the TCBs; each asks one status of its entries.
\<close>

datatype place = Ready | Finished | On_mutex nat | On_cv nat | On_join nat

fun req :: "place \<Rightarrow> Status" where
  "req Ready = READY"
| "req Finished = FINISHED"
| "req (On_mutex m) = BLOCKED"
| "req (On_cv c) = BLOCKED"
| "req (On_join u) = BLOCKED"

text \<open>
  What the invariant reads of a state: the status of every TCB, the content of every queue,
  the current thread and the idle TCB of every CPU, and the allocation pointer.
\<close>

record view =
  st :: "nat \<Rightarrow> Status"
  wl :: "place \<Rightarrow> nat list"
  cur :: "nat \<Rightarrow> nat option"
  idl :: "nat \<Rightarrow> nat option"
  heap_limit :: nat

definition view_of :: "state \<Rightarrow> view" where
  "view_of s =
     \<lparr>st = (\<lambda>t. status (tcbs s t)),
      wl = (\<lambda>p. case p of Ready \<Rightarrow> ready_threads s | Finished \<Rightarrow> finished_threads s
                  | On_mutex m \<Rightarrow> waiting_threads (mutexes s m)
                  | On_cv c \<Rightarrow> cv_waiting_threads (cvs s c)
                  | On_join u \<Rightarrow> join_q (tcbs s u)),
      cur = (\<lambda>c. curr_thread (cpus s c)),
      idl = (\<lambda>c. suspended_thread (cpus s c)),
      heap_limit = heap_top s\<rparr>"

text \<open>
  The changes the library makes to a view: append a TCB to a queue with the status the queue
  asks, pop a queue, make a TCB the running thread of a CPU, suspend a CPU, allocate a TCB, give
  a CPU its idle TCB.
\<close>

definition v_push :: "nat \<Rightarrow> place \<Rightarrow> view \<Rightarrow> view" where
  "v_push t p v = v\<lparr>st := (st v)(t := req p), wl := (wl v)(p := wl v p @ [t])\<rparr>"

definition v_pop :: "place \<Rightarrow> view \<Rightarrow> view" where
  "v_pop p v = v\<lparr>wl := (wl v)(p := tl (wl v p))\<rparr>"

definition v_run :: "nat \<Rightarrow> nat \<Rightarrow> view \<Rightarrow> view" where
  "v_run c t v = v\<lparr>cur := (cur v)(c := Some t), st := (st v)(t := RUNNING)\<rparr>"

definition v_suspend :: "nat \<Rightarrow> view \<Rightarrow> view" where
  "v_suspend c v = v\<lparr>cur := (cur v)(c := idl v c)\<rparr>"

definition v_alloc :: "view \<Rightarrow> view" where
  "v_alloc v = v\<lparr>st := (st v)(heap_limit v := Null), wl := (wl v)(On_join (heap_limit v) := []),
                 heap_limit := Suc (heap_limit v)\<rparr>"

definition v_set_idle :: "nat \<Rightarrow> nat \<Rightarrow> view \<Rightarrow> view" where
  "v_set_idle c a v = v\<lparr>idl := (idl v)(c := Some a)\<rparr>"

text \<open>
  The queues: no queue holds a TCB twice, no TCB is on two queues, every entry has the status
  its queue asks and is allocated; the idle TCBs have status \<open>Null\<close>, are allocated and differ
  from CPU to CPU.
\<close>

definition vlists_ok :: "view \<Rightarrow> bool" where
  "vlists_ok v =
     ((\<forall>p. distinct (wl v p) \<and> (\<forall>t\<in>set (wl v p). st v t = req p \<and> t < heap_limit v)) \<and>
      (\<forall>p q t. t \<in> set (wl v p) \<and> t \<in> set (wl v q) \<longrightarrow> p = q) \<and>
      (\<forall>c i. idl v c = Some i \<longrightarrow> st v i = Null \<and> i < heap_limit v) \<and>
      (\<forall>c d i. idl v c = Some i \<and> idl v d = Some i \<longrightarrow> c = d))"

text \<open>
  The CPUs: the current thread of a CPU is allocated, is its idle TCB or \<open>RUNNING\<close>, and is the
  current thread of no other CPU. While a function runs on the CPUs of \<open>X\<close> their current
  threads are in transit and exempt.
\<close>

definition vcur_ok :: "nat set \<Rightarrow> view \<Rightarrow> nat \<Rightarrow> bool" where
  "vcur_ok X v d =
     (\<forall>t. cur v d = Some t \<longrightarrow>
        t < heap_limit v \<and> (idl v d = Some t \<or> st v t = RUNNING) \<and>
        (\<forall>e. e \<noteq> d \<and> e \<notin> X \<longrightarrow> cur v e \<noteq> Some t))"

definition vJ :: "nat set \<Rightarrow> view \<Rightarrow> bool" where
  "vJ X v = (vlists_ok v \<and> (\<forall>d. d \<notin> X \<longrightarrow> vcur_ok X v d))"

text \<open>A TCB in transit: allocated, on no queue, not current on a CPU outside \<open>X\<close>, not idle.\<close>

definition vdet :: "nat set \<Rightarrow> nat \<Rightarrow> view \<Rightarrow> bool" where
  "vdet X t v =
     (t < heap_limit v \<and> (\<forall>p. t \<notin> set (wl v p)) \<and> (\<forall>d. d \<notin> X \<longrightarrow> cur v d \<noteq> Some t) \<and>
      (\<forall>d. idl v d \<noteq> Some t))"

text \<open>
  How a function ends that gives up its CPU: the head of the ready queue is dispatched, or the
  CPU is suspended. How a function wakes a waiter: not at all, or the head of a queue moves to
  the ready queue.
\<close>

definition closes :: "nat \<Rightarrow> view \<Rightarrow> view \<Rightarrow> bool" where
  "closes c v v' =
     ((\<exists>n rest. wl v Ready = n # rest \<and> v' = v_run c n (v_pop Ready v)) \<or> v' = v_suspend c v)"

definition wakes :: "place \<Rightarrow> view \<Rightarrow> view \<Rightarrow> bool" where
  "wakes p v v' = (v' = v \<or> (\<exists>h rest. wl v p = h # rest \<and> v' = v_push h Ready (v_pop p v)))"

definition Inv :: "state \<Rightarrow> bool" where
  "Inv s = vJ {} (view_of s)"

text \<open>
  The invariants I4 and I5 of the specification, with what the assertions of the library need
  besides: no CPU is registered as idle twice, every registered CPU is suspended (its current
  thread is its idle TCB), and a CPU with a current thread has an idle TCB.
\<close>

definition Ctl :: "state \<Rightarrow> bool" where
  "Ctl s =
     (distinct (sleeping_cpus s) \<and>
      (\<forall>d\<in>set (sleeping_cpus s). curr_thread (cpus s d) = suspended_thread (cpus s d)
                                    \<and> suspended_thread (cpus s d) \<noteq> None) \<and>
      (\<forall>c. curr_thread (cpus s c) \<noteq> None \<longrightarrow> suspended_thread (cpus s c) \<noteq> None))"

text \<open>
  What a function running on CPU \<open>self\<close> leaves alone: it pops CPUs from the front of the
  idle-CPU queue and changes nothing else of it, it changes no other CPU, and it does not take
  the idle TCB of its CPU away.
\<close>

definition frames :: "nat \<Rightarrow> state \<Rightarrow> state \<Rightarrow> bool" where
  "frames self s s' =
     ((\<exists>k. sleeping_cpus s' = drop k (sleeping_cpus s)) \<and>
      (\<forall>d. d \<noteq> self \<longrightarrow> cpus s' d = cpus s d) \<and>
      (suspended_thread (cpus s self) \<noteq> None \<longrightarrow> suspended_thread (cpus s' self) \<noteq> None))"

definition keeps :: "nat \<Rightarrow> state \<Rightarrow> outcome \<Rightarrow> bool" where
  "keeps self s r = (\<forall>s'. next_state r = Some s' \<longrightarrow> frames self s s')"

text \<open>
  What a function leaves alone of mutex \<open>m\<close> and of the TCBs: the owner field and the free
  flag of \<open>m\<close>, and the id of every allocated TCB; the allocation pointer does not go back.
\<close>

definition mutex_frame :: "nat \<Rightarrow> state \<Rightarrow> state \<Rightarrow> bool" where
  "mutex_frame m s s' =
     (thread_holding_lock (mutexes s' m) = thread_holding_lock (mutexes s m) \<and>
      free (mutexes s' m) = free (mutexes s m) \<and>
      heap_top s \<le> heap_top s' \<and>
      (\<forall>a<heap_top s. tcb_id (tcbs s' a) = tcb_id (tcbs s a)))"

definition leaves :: "nat \<Rightarrow> state \<Rightarrow> outcome \<Rightarrow> bool" where
  "leaves m s r = (\<forall>s'. next_state r = Some s' \<longrightarrow> mutex_frame m s s')"

section \<open>Properties\<close>

lemma fetch_cpu_result:
  "fetch_cpu_asserts self s \<Longrightarrow>
   fetch_cpu self s = Returns (s\<lparr>sleeping_cpus := drop 1 (sleeping_cpus s),
                                  ipi_sent := ipi_sent s @ take 1 (sleeping_cpus s)\<rparr>)"
  by (cases "sleeping_cpus s")
     (auto simp: fetch_cpu_def fetch_cpu_asserts_def interrupt_send_def)

lemma push_to_queue_result:
  assumes "status (tcbs s t) = Null \<or> status (tcbs s t) = RUNNING \<or> status (tcbs s t) = BLOCKED"
    and "fetch_cpu_asserts self s"
  shows "push_to_queue self (Some t) s =
     Returns (s\<lparr>tcbs := (tcbs s)(t := (tcbs s t)\<lparr>status := READY\<rparr>),
                ready_threads := ready_threads s @ [t],
                sleeping_cpus := drop 1 (sleeping_cpus s),
                ipi_sent := ipi_sent s @ take 1 (sleeping_cpus s)\<rparr>)"
proof -
  let ?s1 = "(set_status t READY s)\<lparr>ready_threads := ready_threads s @ [t]\<rparr>"
  have a: "fetch_cpu_asserts self ?s1"
    using assms(2) by (auto simp: fetch_cpu_asserts_def set_status_def split: list.splits)
  have "push_to_queue self (Some t) s = fetch_cpu self ?s1"
    using assms(1) by (auto simp: push_to_queue_def)
  then show ?thesis
    by (simp add: fetch_cpu_result [OF a]) (simp add: set_status_def)
qed

lemmas op_defs =
  and_then_def set_status_def set_curr_thread_def interrupt_send_def fetch_cpu_def
  push_to_queue_def suspend_cpu_def suspend_helper_def get_next_thread_def ipi_handler_def
  begin_process_def TCB_ctor_def cpu_ctor_def mutex_ctor_def internal_lock_def
  internal_unlock_def lock_def unlock_def wait_def signal_def thread_ctor_def
  thread_execution_def yield_def join_def timer_interrupt_handler_def

lemmas concrete_defs =
  boot_state_def running_state_def held_state_def released_state_def contended_state_def
  swept_state_def waiting_state_def joined_state_def

text \<open>The concrete states are states of the library: the code produces them from the boot state.\<close>

lemma running_state_reached:
  "cpu_ctor 0 (Some 0) boot_state = Switches Set_context running_state"
  by (simp add: op_defs concrete_defs Let_def)

lemma held_state_reached: "lock 0 0 running_state = Returns held_state"
  by (simp add: op_defs concrete_defs)

lemma released_state_reached: "unlock 0 0 held_state = Returns released_state"
  by (simp add: op_defs concrete_defs)

lemma contended_state_reached:
  "\<exists>s1 s2 s3 s4 s5 s6.
     cpu_ctor 1 None boot_state = Switches Set_context s1 \<and>
     cpu_ctor 0 (Some 0) (suspend_helper 1 s1) = Switches Set_context s2 \<and>
     thread_ctor 0 (Some 0) s2 = Returns s3 \<and>
     lock 0 0 s3 = Returns s4 \<and>
     ipi_handler 1 s4 = Switches Swap_ipi_handler s5 \<and>
     lock 1 0 s5 = Switches Swap_suspend_cpu s6 \<and>
     contended_state = suspend_helper 1 s6"
  by (simp add: op_defs concrete_defs Let_def eval_nat_numeral)

lemma drain_join_q_empty:
  "curr_thread (cpus s self) = Some t \<Longrightarrow> join_q (tcbs s t) = [] \<Longrightarrow>
   drain_join_q self s = Returns s"
  by (subst drain_join_q.simps) simp

lemma swept_state_reached:
  "\<exists>s1 s2. thread_ctor 0 (Some 0) running_state = Returns s1 \<and>
            runs_user_thread 0 s1 \<and>
            yield 0 s1 = Switches Swap_yield s2 \<and>
            runs_user_thread 0 s2 \<and>
            thread_execution 0 s2 = Switches Set_context swept_state"
  by (simp add: op_defs concrete_defs runs_user_thread_def Let_def eval_nat_numeral fun_eq_iff
                drain_join_q_empty)

subsection \<open>The finished-list sweep changes nothing\<close>

lemma clear_finished_loop_same:
  "clear_finished_loop curr_tcb fs s = Returns s' \<Longrightarrow> s' = s"
  by (induction fs) (auto split: if_splits)

lemma clear_finished_threads_same:
  "clear_finished_threads curr_tcb s = Returns s' \<Longrightarrow> s' = s"
  unfolding clear_finished_threads_def by (rule clear_finished_loop_same)

lemma clear_finished_loop_outcome:
  "clear_finished_loop curr_tcb fs s = Returns s \<or> clear_finished_loop curr_tcb fs s = Aborts"
  by (induction fs) auto

subsection \<open>push\_to\_queue and fetch\_cpu\<close>

text \<open>
  Claim C7. For a TCB whose status is \<open>Null\<close> (the specification's NEW), \<open>RUNNING\<close> or
  \<open>BLOCKED\<close>, \<^verbatim>\<open>push_to_queue\<close> returns normally, having set the status to \<open>READY\<close> and
  appended the TCB at the tail of the ready queue, whose earlier entries keep their order, and
  having then run \<^verbatim>\<open>fetch_cpu\<close>: with an empty idle-CPU queue nothing else changes; otherwise
  the head of the idle-CPU queue is popped and sent an inter-processor interrupt. Nothing else
  in the state changes. The assertions of \<^verbatim>\<open>fetch_cpu\<close> on the popped CPU (invariants I4 and
  I5 of the scheduler) are assumed to hold.
\<close>

theorem push_to_queue_enqueues_and_fetches:
  assumes "status (tcbs s t) = Null \<or> status (tcbs s t) = RUNNING \<or> status (tcbs s t) = BLOCKED"
    and "fetch_cpu_asserts self s"
  shows "(sleeping_cpus s = [] \<longrightarrow>
            push_to_queue self (Some t) s =
              Returns (s\<lparr>tcbs := (tcbs s)(t := (tcbs s t)\<lparr>status := READY\<rparr>),
                         ready_threads := ready_threads s @ [t]\<rparr>)) \<and>
         (\<forall>d ds. sleeping_cpus s = d # ds \<longrightarrow>
            push_to_queue self (Some t) s =
              Returns (s\<lparr>tcbs := (tcbs s)(t := (tcbs s t)\<lparr>status := READY\<rparr>),
                         ready_threads := ready_threads s @ [t],
                         sleeping_cpus := ds,
                         ipi_sent := ipi_sent s @ [d]\<rparr>))"
  using push_to_queue_result [OF assms] by auto

theorem push_to_queue_enqueues_and_fetches_witness:
  "status (tcbs contended_state 3) = BLOCKED \<and> fetch_cpu_asserts 0 contended_state \<and>
   sleeping_cpus contended_state = [1] \<and>
   push_to_queue 0 (Some 3) contended_state =
     Returns (contended_state
       \<lparr>tcbs := (tcbs contended_state)(3 := (tcbs contended_state 3)\<lparr>status := READY\<rparr>),
        ready_threads := ready_threads contended_state @ [3],
        sleeping_cpus := [],
        ipi_sent := ipi_sent contended_state @ [1]\<rparr>) \<and>
   status (tcbs running_state 1) = RUNNING \<and> fetch_cpu_asserts 0 running_state \<and>
   sleeping_cpus running_state = [] \<and>
   push_to_queue 0 (Some 1) running_state =
     Returns (running_state
       \<lparr>tcbs := (tcbs running_state)(1 := (tcbs running_state 1)\<lparr>status := READY\<rparr>),
        ready_threads := ready_threads running_state @ [1]\<rparr>)"
proof -
  have a: "status (tcbs contended_state 3) = BLOCKED"
    by (simp add: contended_state_def)
  have b: "fetch_cpu_asserts 0 contended_state"
    by (simp add: contended_state_def boot_state_def fetch_cpu_asserts_def)
  have c: "sleeping_cpus contended_state = [1]"
    by (simp add: contended_state_def)
  have a': "status (tcbs running_state 1) = RUNNING"
    by (simp add: running_state_def)
  have c': "sleeping_cpus running_state = []"
    by (simp add: running_state_def boot_state_def)
  have b': "fetch_cpu_asserts 0 running_state"
    by (simp add: c' fetch_cpu_asserts_def)
  from push_to_queue_enqueues_and_fetches [of contended_state 3 0]
       push_to_queue_enqueues_and_fetches [of running_state 1 0] a b c a' b' c'
  show ?thesis by simp
qed

subsection \<open>mutex::unlock\<close>

lemma internal_unlock_throws:
  "internal_unlock self m s = Throws s' \<Longrightarrow>
     s' = s \<and> (\<exists>t. curr_thread (cpus s self) = Some t \<and>
                    thread_holding_lock (mutexes s m) \<noteq> sint (tcb_id (tcbs s t)))"
  by (auto simp: internal_unlock_def push_to_queue_def fetch_cpu_def Let_def
           split: option.splits if_splits list.splits)

lemma internal_unlock_handoff:
  assumes "curr_thread (cpus s self) = Some t"
    and "thread_holding_lock (mutexes s m) = sint (tcb_id (tcbs s t))"
    and "waiting_threads (mutexes s m) = w # ws"
    and "status (tcbs s w) = Null \<or> status (tcbs s w) = RUNNING \<or> status (tcbs s w) = BLOCKED"
    and "fetch_cpu_asserts self s"
  shows "internal_unlock self m s =
     Returns (s\<lparr>mutexes := (mutexes s)(m := (mutexes s m)\<lparr>waiting_threads := ws,
                     thread_holding_lock := sint (tcb_id (tcbs s w)), free := False\<rparr>),
                tcbs := (tcbs s)(w := (tcbs s w)\<lparr>status := READY\<rparr>),
                ready_threads := ready_threads s @ [w],
                sleeping_cpus := drop 1 (sleeping_cpus s),
                ipi_sent := ipi_sent s @ take 1 (sleeping_cpus s)\<rparr>)"
proof -
  let ?s3 = "s\<lparr>mutexes := (mutexes s)(m := (mutexes s m)\<lparr>waiting_threads := ws,
                     thread_holding_lock := sint (tcb_id (tcbs s w)), free := False\<rparr>)\<rparr>"
  have "internal_unlock self m s = push_to_queue self (Some w) ?s3"
    using assms(1-4) by (auto simp: internal_unlock_def)
  moreover have "fetch_cpu_asserts self ?s3"
    using assms(5) by (auto simp: fetch_cpu_asserts_def split: list.splits)
  moreover have "status (tcbs ?s3 w) = Null \<or> status (tcbs ?s3 w) = RUNNING
                 \<or> status (tcbs ?s3 w) = BLOCKED"
    using assms(4) by simp
  ultimately show ?thesis
    by (simp add: push_to_queue_result)
qed

text \<open>
  Claim C9 (error atomicity of unlock). Whenever \<^verbatim>\<open>unlock\<close> raises its error, the state at
  the throw is the state before the call, whole: the mutex (free flag, owner field, waitlist),
  the ready queue and every TCB; and the error was raised by the ownership check, the owner
  field differing from the caller's id.
\<close>

theorem unlock_error_changes_nothing:
  "unlock self m s = Throws s' \<Longrightarrow>
     s' = s \<and> (\<exists>t. curr_thread (cpus s self) = Some t \<and>
                    thread_holding_lock (mutexes s m) \<noteq> sint (tcb_id (tcbs s t)))"
  unfolding unlock_def by (rule internal_unlock_throws)

theorem unlock_error_changes_nothing_witness:
  "unlock 0 0 running_state = Throws running_state \<and>
   curr_thread (cpus running_state 0) = Some 1 \<and>
   thread_holding_lock (mutexes running_state 0) \<noteq> sint (tcb_id (tcbs running_state 1))"
proof -
  have "\<exists>s'. unlock 0 0 running_state = Throws s'"
    by (simp add: unlock_def internal_unlock_def concrete_defs mutex_ctor_def)
  then obtain s' where t: "unlock 0 0 running_state = Throws s'" ..
  from unlock_error_changes_nothing [OF t] have "s' = running_state" by simp
  with t show ?thesis by (simp add: concrete_defs mutex_ctor_def)
qed

subsection \<open>cv::signal and cv::broadcast\<close>

text \<open>
  Claim C10. Called on a condition variable whose waitlist is empty, \<^verbatim>\<open>signal\<close> and
  \<^verbatim>\<open>broadcast\<close> return normally and leave the whole state as it was, so the cv's waitlist,
  the ready queue and every TCB's status are unchanged. Neither function takes or reads a mutex.
\<close>

theorem signal_broadcast_empty_noop:
  "cv_waiting_threads (cvs s c) = [] \<Longrightarrow>
     signal self c s = Returns s \<and> broadcast self c s = Returns s"
  by (subst broadcast.simps) (simp add: signal_def)

theorem signal_broadcast_empty_noop_witness:
  "cv_waiting_threads (cvs running_state 0) = [] \<and>
   signal 0 0 running_state = Returns running_state \<and>
   broadcast 0 0 running_state = Returns running_state"
proof -
  have a: "cv_waiting_threads (cvs running_state 0) = []"
    by (simp add: concrete_defs)
  from signal_broadcast_empty_noop [OF a, of 0] a show ?thesis by simp
qed


subsection \<open>The owner field after unlock\<close>

lemma unlock_empty_waitlist:
  assumes "curr_thread (cpus s self) = Some t"
    and "thread_holding_lock (mutexes s m) = sint (tcb_id (tcbs s t))"
    and "waiting_threads (mutexes s m) = []"
  shows "unlock self m s = Returns (s\<lparr>mutexes := (mutexes s)(m := (mutexes s m)\<lparr>free := True\<rparr>)\<rparr>)"
  using assms by (simp add: unlock_def internal_unlock_def)

text \<open>What the ownership test of \<^verbatim>\<open>unlock\<close> decides on: the owner field alone.\<close>

lemma unlock_throws_iff:
  assumes "curr_thread (cpus s self) = Some t"
  shows "(\<exists>s'. unlock self m s = Throws s') \<longleftrightarrow>
         thread_holding_lock (mutexes s m) \<noteq> sint (tcb_id (tcbs s t))"
proof
  assume "\<exists>s'. unlock self m s = Throws s'"
  then show "thread_holding_lock (mutexes s m) \<noteq> sint (tcb_id (tcbs s t))"
    using assms internal_unlock_throws [of self m s] by (auto simp: unlock_def)
next
  assume "thread_holding_lock (mutexes s m) \<noteq> sint (tcb_id (tcbs s t))"
  then show "\<exists>s'. unlock self m s = Throws s'"
    using assms by (simp add: unlock_def internal_unlock_def)
qed

text \<open>
  Claim C2 (invariant I6), evaluated on the code. Thread 1 (id 1) holds mutex 0, whose
  waitlist is empty, and unlocks it. The call returns with the free flag set, so no thread
  holds the mutex, but the owner field still holds 1: \<^verbatim>\<open>internal_unlock\<close> writes
  \<^verbatim>\<open>thread_holding_lock\<close> only when it hands the mutex to a waiter, and never writes back the
  value \<open>-1\<close> that the constructor gives an unowned mutex.
\<close>

theorem unlock_leaves_stale_owner:
  "lock 0 0 running_state = Returns held_state \<and>
   waiting_threads (mutexes held_state 0) = [] \<and>
   unlock 0 0 held_state = Returns released_state \<and>
   free (mutexes released_state 0) \<and>
   thread_holding_lock (mutexes released_state 0) = 1 \<and>
   thread_holding_lock mutex_ctor = - 1"
  by (simp add: op_defs concrete_defs)

text \<open>
  Claim C3, evaluated on the code. In \<open>released_state\<close> mutex 0 is free: thread 1 released it
  and does not hold it. Thread 1 calls \<^verbatim>\<open>unlock\<close> again: no error is raised, the call returns
  normally. The check of \<^verbatim>\<open>internal_unlock\<close> compares the owner field only, and that field
  still holds the id of the thread that released the mutex.
\<close>

theorem unlock_twice_raises_nothing:
  "curr_thread (cpus released_state 0) = Some 1 \<and>
   free (mutexes released_state 0) \<and>
   unlock 0 0 released_state = Returns released_state"
  by (simp add: op_defs concrete_defs)

subsection \<open>cv::wait\<close>

lemma wait_throws:
  "wait self c mtx s = Throws s' \<Longrightarrow>
     s' = s \<and> (\<exists>t. curr_thread (cpus s self) = Some t \<and>
                    thread_holding_lock (mutexes s mtx) \<noteq> sint (tcb_id (tcbs s t)))"
  by (auto simp: wait_def and_then_def internal_unlock_def push_to_queue_def fetch_cpu_def
                 get_next_thread_def suspend_cpu_def Let_def
           split: option.splits if_splits list.splits outcome.splits)

lemma wait_throws_iff:
  assumes "curr_thread (cpus s self) = Some t"
  shows "(\<exists>s'. wait self c mtx s = Throws s') \<longleftrightarrow>
         thread_holding_lock (mutexes s mtx) \<noteq> sint (tcb_id (tcbs s t))"
proof
  assume "\<exists>s'. wait self c mtx s = Throws s'"
  then show "thread_holding_lock (mutexes s mtx) \<noteq> sint (tcb_id (tcbs s t))"
    using assms wait_throws [of self c mtx s] by auto
next
  assume "thread_holding_lock (mutexes s mtx) \<noteq> sint (tcb_id (tcbs s t))"
  then show "\<exists>s'. wait self c mtx s = Throws s'"
    using assms by (simp add: wait_def)
qed

text \<open>
  Claim C6, evaluated on the code. In \<open>released_state\<close> mutex 0 is free and thread 1 does not
  own it. Thread 1 calls \<^verbatim>\<open>wait\<close> on cv 0 with mutex 0: no error is raised; the thread is set
  \<open>BLOCKED\<close>, appended to the cv's waitlist, and the CPU switches away. The ownership test of
  \<^verbatim>\<open>cv::wait\<close> reads the owner field only, which \<^verbatim>\<open>unlock\<close> left stale.
\<close>

theorem wait_without_mutex_raises_nothing:
  "curr_thread (cpus released_state 0) = Some 1 \<and>
   free (mutexes released_state 0) \<and>
   wait 0 0 0 released_state = Switches Swap_suspend_cpu waiting_state \<and>
   cv_waiting_threads (cvs waiting_state 0) = [1] \<and>
   status (tcbs waiting_state 1) = BLOCKED"
  by (simp add: op_defs concrete_defs)

subsection \<open>The finished-list sweep\<close>

text \<open>
  Claim C4, evaluated on the code. Thread 1 resumes from the context switch of \<^verbatim>\<open>yield\<close> with
  the terminated thread 2 on the finished list, and runs the sweep. The sweep returns and the
  finished list is what it was: it still holds thread 2. The loop of
  \<^verbatim>\<open>clear_finished_threads\<close> resets its own copy of each entry, never the entry of the list.
\<close>

theorem sweep_keeps_finished_list:
  "finished_threads swept_state = [2] \<and>
   status (tcbs swept_state 2) = FINISHED \<and>
   curr_thread (cpus swept_state 0) = Some 1 \<and>
   yield_resumed (Some 1) swept_state = Returns swept_state \<and>
   get_next_thread_resumed Swap_get_next_thread (Some 1) swept_state = Returns swept_state"
  by (simp add: yield_resumed_def get_next_thread_resumed_def clear_finished_threads_def
                concrete_defs)


subsection \<open>The end of a thread's body\<close>

lemma woken_Nil: "woken [] s = s"
  by (simp add: woken_def)

lemma sleepers_ok_fetch: "sleepers_ok self s \<Longrightarrow> fetch_cpu_asserts self s"
  by (cases "sleeping_cpus s") (auto simp: sleepers_ok_def fetch_cpu_asserts_def)

lemma take_Suc_drop: "take (Suc 0) xs @ take n (drop (Suc 0) xs) = take (Suc n) xs"
  by (cases xs) auto

lemma drain_join_q_result:
  "curr_thread (cpus s self) = Some t \<Longrightarrow> join_q (tcbs s t) = js \<Longrightarrow> distinct js \<Longrightarrow>
   \<forall>j\<in>set js. pushable (status (tcbs s j)) \<Longrightarrow> sleepers_ok self s \<Longrightarrow>
   drain_join_q self s =
     Returns (woken js (s\<lparr>tcbs := (tcbs s)(t := (tcbs s t)\<lparr>join_q := []\<rparr>)\<rparr>))"
proof (induction js arbitrary: s)
  case Nil
  have e: "s\<lparr>tcbs := (tcbs s)(t := (tcbs s t)\<lparr>join_q := []\<rparr>)\<rparr> = s"
    using Nil(2) by (simp add: fun_upd_idem)
  have "drain_join_q self s = Returns s"
    using Nil(1,2) by (rule drain_join_q_empty)
  then show ?case unfolding woken_Nil e .
next
  case (Cons j js)
  let ?s0 = "s\<lparr>tcbs := (tcbs s)(t := (tcbs s t)\<lparr>join_q := js\<rparr>)\<rparr>"
  let ?s1 = "?s0\<lparr>tcbs := (tcbs ?s0)(j := (tcbs ?s0 j)\<lparr>status := READY\<rparr>),
                ready_threads := ready_threads ?s0 @ [j],
                sleeping_cpus := drop 1 (sleeping_cpus ?s0),
                ipi_sent := ipi_sent ?s0 @ take 1 (sleeping_cpus ?s0)\<rparr>"
  have st: "status (tcbs ?s0 j) = Null \<or> status (tcbs ?s0 j) = RUNNING \<or> status (tcbs ?s0 j) = BLOCKED"
    using Cons.prems(4) by (auto simp: pushable_def)
  have fa: "fetch_cpu_asserts self ?s0"
    using sleepers_ok_fetch [OF Cons.prems(5)] by (auto simp: fetch_cpu_asserts_def split: list.splits)
  have push: "push_to_queue self (Some j) ?s0 = Returns ?s1"
    using push_to_queue_result [OF st fa] by simp
  have step: "drain_join_q self s = drain_join_q self ?s1"
    using Cons.prems(1,2) push by (subst drain_join_q.simps) simp
  have 1: "curr_thread (cpus ?s1 self) = Some t" using Cons.prems(1) by simp
  have 2: "join_q (tcbs ?s1 t) = js" by simp
  have 3: "distinct js" using Cons.prems(3) by simp
  have 4: "\<forall>i\<in>set js. pushable (status (tcbs ?s1 i))"
    using Cons.prems(3,4) by auto
  have 5: "sleepers_ok self ?s1"
    using Cons.prems(5) by (cases "sleeping_cpus s") (auto simp: sleepers_ok_def)
  have eq: "woken js (?s1\<lparr>tcbs := (tcbs ?s1)(t := (tcbs ?s1 t)\<lparr>join_q := []\<rparr>)\<rparr>)
        = woken (j # js) (s\<lparr>tcbs := (tcbs s)(t := (tcbs s t)\<lparr>join_q := []\<rparr>)\<rparr>)"
    by (rule state.equality) (auto simp: woken_def fun_eq_iff take_Suc_drop)
  note step
  also have "drain_join_q self ?s1 =
      Returns (woken js (?s1\<lparr>tcbs := (tcbs ?s1)(t := (tcbs ?s1 t)\<lparr>join_q := []\<rparr>)\<rparr>))"
    by (rule Cons.IH [OF 1 2 3 4 5])
  finally show ?case by (simp only: eq)
qed

lemma suspend_cpu_outcome: "suspend_cpu self s \<noteq> Returns s' \<and> suspend_cpu self s \<noteq> Throws s'"
  by (simp add: suspend_cpu_def Let_def split: option.splits)

lemma thread_execution_never_returns: "thread_execution self s \<noteq> Returns s'"
  by (auto simp: thread_execution_def and_then_def Let_def suspend_cpu_outcome
           split: outcome.splits option.splits)

lemma thread_execution_result:
  assumes "curr_thread (cpus s self) = Some t"
    and "join_q (tcbs s t) = js" and "distinct js"
    and "\<forall>j\<in>set js. pushable (status (tcbs s j))"
    and "sleepers_ok self s"
    and "suspended_thread (cpus s self) \<noteq> None"
  shows "thread_execution self s =
     (let s1 = woken js (s\<lparr>tcbs := (tcbs s)(t := (tcbs s t)\<lparr>join_q := []\<rparr>)\<rparr>);
          s2 = set_status t FINISHED s1;
          s3 = s2\<lparr>finished_threads := finished_threads s2 @ [t]\<rparr>
      in case ready_threads s3 of
           [] \<Rightarrow> Switches Swap_suspend_cpu
                   (set_curr_thread self (suspended_thread (cpus s self)) s3)
         | n # rest \<Rightarrow> Switches Set_context
                   (set_status n RUNNING
                      ((set_curr_thread self (Some n) s3)\<lparr>ready_threads := rest\<rparr>)))"
proof -
  have d: "drain_join_q self s =
     Returns (woken js (s\<lparr>tcbs := (tcbs s)(t := (tcbs s t)\<lparr>join_q := []\<rparr>)\<rparr>))"
    using assms(1-5) by (rule drain_join_q_result)
  show ?thesis
    using assms(1,6)
    by (auto simp: thread_execution_def d and_then_def woken_def Let_def set_status_def
                   set_curr_thread_def suspend_cpu_def split: list.splits)
qed

lemma joined_state_reached:
  "\<exists>s1. thread_ctor 0 (Some 0) running_state = Returns s1 \<and>
         runs_user_thread 0 s1 \<and>
         join 0 (Some 2) s1 = Switches Swap_get_next_thread joined_state"
  by (simp add: op_defs concrete_defs runs_user_thread_def Let_def eval_nat_numeral fun_eq_iff)

text \<open>
  Claim C5 (end-of-body trampoline). Let thread \<open>t\<close> run on a constructed CPU and return from
  its body, with the threads \<open>js\<close> on its join waitlist, in a state where the invariants I1 and
  I2 hold for the threads involved and the assertions of \<^verbatim>\<open>fetch_cpu\<close> hold for the idle
  CPUs. Then \<^verbatim>\<open>thread_execution\<close> never returns to its caller: it ends in a context switch.
  In the state it leaves, the join waitlist of \<open>t\<close> is empty and its threads went through
  \<^verbatim>\<open>push_to_queue\<close> behind the earlier entries of the ready queue; \<open>t\<close> is \<open>FINISHED\<close> and at
  the end of the finished list; and the head of the ready queue so extended is the CPU's current
  thread, \<open>RUNNING\<close> and popped, the rest being \<open>READY\<close>; if that queue is empty the CPU is
  suspended, its current thread being its idle TCB. That a joiner of \<open>t\<close> can be the thread
  dispatched shows the order: the drain comes before the dispatch.
\<close>

theorem thread_execution_end_of_body:
  assumes "curr_thread (cpus s self) = Some t"
    and "status (tcbs s t) = RUNNING"
    and "join_q (tcbs s t) = js" and "distinct js"
    and "\<forall>j\<in>set js. status (tcbs s j) = BLOCKED"
    and "distinct (ready_threads s)"
    and "\<forall>r\<in>set (ready_threads s). status (tcbs s r) = READY"
    and "sleepers_ok self s"
    and "suspended_thread (cpus s self) \<noteq> None"
  shows "(\<forall>s'. thread_execution self s \<noteq> Returns s') \<and>
    (\<exists>s'. thread_execution self s =
            Switches (if ready_threads s @ js = [] then Swap_suspend_cpu else Set_context) s' \<and>
          join_q (tcbs s' t) = [] \<and>
          status (tcbs s' t) = FINISHED \<and>
          finished_threads s' = finished_threads s @ [t] \<and>
          (case ready_threads s @ js of
             [] \<Rightarrow> curr_thread (cpus s' self) = suspended_thread (cpus s self) \<and>
                   ready_threads s' = []
           | n # rest \<Rightarrow> curr_thread (cpus s' self) = Some n \<and> status (tcbs s' n) = RUNNING \<and>
                   ready_threads s' = rest \<and> (\<forall>j\<in>set rest. status (tcbs s' j) = READY)) \<and>
          suspended_thread (cpus s' self) = suspended_thread (cpus s self) \<and>
          (\<forall>d. d \<noteq> self \<longrightarrow> cpus s' d = cpus s d) \<and>
          mutexes s' = mutexes s \<and> cvs s' = cvs s \<and>
          sleeping_cpus s' = drop (length js) (sleeping_cpus s) \<and>
          ipi_sent s' = ipi_sent s @ take (length js) (sleeping_cpus s))"
proof -
  have p: "\<forall>j\<in>set js. pushable (status (tcbs s j))"
    using assms(5) by (simp add: pushable_def)
  have tn: "t \<notin> set js" "t \<notin> set (ready_threads s)"
    using assms(2,5,7) by auto
  have dj: "set js \<inter> set (ready_threads s) = {}"
    using assms(5,7) by auto
  note r = thread_execution_result [OF assms(1,3,4) p assms(8,9)]
  show ?thesis
  proof (cases "ready_threads s @ js")
    case Nil
    then show ?thesis
      using tn by (simp add: thread_execution_never_returns r woken_def set_status_def
                             set_curr_thread_def Let_def)
  next
    case (Cons n rest)
    have sets: "set (n # rest) = set (ready_threads s) \<union> set js"
      unfolding Cons [symmetric] by simp
    have "distinct (ready_threads s @ js)"
      using assms(4,6) dj by auto
    then have d0: "distinct (n # rest)"
      unfolding Cons .
    have d: "n \<notin> set rest" "distinct rest" "t \<noteq> n" "t \<notin> set rest"
      "\<forall>j\<in>set rest. j \<in> set js \<or> status (tcbs s j) = READY"
      using d0 sets tn assms(7) by auto
    show ?thesis
      using d Cons
      by (auto simp: thread_execution_never_returns r woken_def set_status_def
                     set_curr_thread_def Let_def)
  qed
qed

theorem thread_execution_end_of_body_witness:
  "curr_thread (cpus joined_state 0) = Some 2 \<and>
   status (tcbs joined_state 2) = RUNNING \<and>
   join_q (tcbs joined_state 2) = [1] \<and>
   status (tcbs joined_state 1) = BLOCKED \<and>
   ready_threads joined_state = [] \<and>
   sleepers_ok 0 joined_state \<and>
   suspended_thread (cpus joined_state 0) = Some 0 \<and>
   (\<exists>s'. thread_execution 0 joined_state = Switches Set_context s' \<and>
         join_q (tcbs s' 2) = [] \<and>
         status (tcbs s' 2) = FINISHED \<and>
         finished_threads s' = [2] \<and>
         curr_thread (cpus s' 0) = Some 1 \<and>
         status (tcbs s' 1) = RUNNING \<and>
         ready_threads s' = []) \<and>
   curr_thread (cpus running_state 0) = Some 1 \<and>
   status (tcbs running_state 1) = RUNNING \<and>
   join_q (tcbs running_state 1) = [] \<and>
   ready_threads running_state = [] \<and>
   sleepers_ok 0 running_state \<and>
   suspended_thread (cpus running_state 0) = Some 0 \<and>
   (\<exists>s'. thread_execution 0 running_state = Switches Swap_suspend_cpu s' \<and>
         status (tcbs s' 1) = FINISHED \<and>
         finished_threads s' = [1] \<and>
         curr_thread (cpus s' 0) = Some 0 \<and>
         ready_threads s' = [])"
proof -
  have h: "curr_thread (cpus joined_state 0) = Some 2"
    "status (tcbs joined_state 2) = RUNNING"
    "join_q (tcbs joined_state 2) = [1]"
    "status (tcbs joined_state 1) = BLOCKED"
    "ready_threads joined_state = []"
    "sleepers_ok 0 joined_state"
    "suspended_thread (cpus joined_state 0) = Some 0"
    "finished_threads joined_state = []"
    by (simp_all add: joined_state_def boot_state_def sleepers_ok_def)
  have k: "curr_thread (cpus running_state 0) = Some 1"
    "status (tcbs running_state 1) = RUNNING"
    "join_q (tcbs running_state 1) = []"
    "ready_threads running_state = []"
    "sleepers_ok 0 running_state"
    "suspended_thread (cpus running_state 0) = Some 0"
    "finished_threads running_state = []"
    by (simp_all add: running_state_def boot_state_def sleepers_ok_def)
  from thread_execution_end_of_body [of joined_state 0 2 "[1]"] h
  have 1: "\<exists>s'. thread_execution 0 joined_state = Switches Set_context s' \<and>
         join_q (tcbs s' 2) = [] \<and>
         status (tcbs s' 2) = FINISHED \<and>
         finished_threads s' = [2] \<and>
         curr_thread (cpus s' 0) = Some 1 \<and>
         status (tcbs s' 1) = RUNNING \<and>
         ready_threads s' = []"
    by auto
  from thread_execution_end_of_body [of running_state 0 1 "[]"] k
  have 2: "\<exists>s'. thread_execution 0 running_state = Switches Swap_suspend_cpu s' \<and>
         status (tcbs s' 1) = FINISHED \<and>
         finished_threads s' = [1] \<and>
         curr_thread (cpus s' 0) = Some 0 \<and>
         ready_threads s' = []"
    by auto
  show ?thesis using h k 1 2 by simp
qed

subsection \<open>Invariant I2\<close>

lemma req_not: "req p \<noteq> RUNNING" "req p \<noteq> Null"
  by (cases p; simp)+

lemma vlI:
  assumes "\<And>p. distinct (wl v p)"
    and "\<And>p t. t \<in> set (wl v p) \<Longrightarrow> st v t = req p"
    and "\<And>p t. t \<in> set (wl v p) \<Longrightarrow> t < heap_limit v"
    and "\<And>p q t. t \<in> set (wl v p) \<Longrightarrow> t \<in> set (wl v q) \<Longrightarrow> p = q"
    and "\<And>c i. idl v c = Some i \<Longrightarrow> st v i = Null"
    and "\<And>c i. idl v c = Some i \<Longrightarrow> i < heap_limit v"
    and "\<And>c d i. idl v c = Some i \<Longrightarrow> idl v d = Some i \<Longrightarrow> c = d"
  shows "vlists_ok v"
  unfolding vlists_ok_def using assms by blast

lemma vl_distinct: "vlists_ok v \<Longrightarrow> distinct (wl v p)"
  by (simp add: vlists_ok_def)

lemma vl_status: "vlists_ok v \<Longrightarrow> t \<in> set (wl v p) \<Longrightarrow> st v t = req p"
  by (simp add: vlists_ok_def)

lemma vl_bound: "vlists_ok v \<Longrightarrow> t \<in> set (wl v p) \<Longrightarrow> t < heap_limit v"
  by (simp add: vlists_ok_def)

lemma vl_unique: "vlists_ok v \<Longrightarrow> t \<in> set (wl v p) \<Longrightarrow> t \<in> set (wl v q) \<Longrightarrow> p = q"
  unfolding vlists_ok_def by blast

lemma vl_idle_status: "vlists_ok v \<Longrightarrow> idl v c = Some i \<Longrightarrow> st v i = Null"
  unfolding vlists_ok_def by blast

lemma vl_idle_bound: "vlists_ok v \<Longrightarrow> idl v c = Some i \<Longrightarrow> i < heap_limit v"
  unfolding vlists_ok_def by blast

lemma vl_idle_unique: "vlists_ok v \<Longrightarrow> idl v c = Some i \<Longrightarrow> idl v d = Some i \<Longrightarrow> c = d"
  unfolding vlists_ok_def by blast

lemma vlists_ok_push:
  assumes ok: "vlists_ok v" and b: "t < heap_limit v" and n: "\<And>p. t \<notin> set (wl v p)"
    and i: "\<And>d. idl v d \<noteq> Some t"
  shows "vlists_ok (v_push t p v)"
proof (rule vlI)
  fix q show "distinct (wl (v_push t p v) q)"
    using vl_distinct [OF ok] n by (simp add: v_push_def)
next
  fix q u assume "u \<in> set (wl (v_push t p v) q)"
  then have "(u = t \<and> q = p) \<or> (u \<noteq> t \<and> u \<in> set (wl v q))"
    using n by (auto simp: v_push_def split: if_splits)
  then show "st (v_push t p v) u = req q" "u < heap_limit (v_push t p v)"
    using vl_status [OF ok] vl_bound [OF ok] b by (auto simp: v_push_def)
next
  fix q r u
  assume "u \<in> set (wl (v_push t p v) q)" "u \<in> set (wl (v_push t p v) r)"
  then have "(u = t \<and> q = p \<and> r = p) \<or> (u \<in> set (wl v q) \<and> u \<in> set (wl v r))"
    using n by (auto simp: v_push_def split: if_splits)
  then show "q = r" using vl_unique [OF ok] by blast
next
  fix c j assume "idl (v_push t p v) c = Some j"
  then have "idl v c = Some j" "j \<noteq> t" using i by (auto simp: v_push_def)
  then show "st (v_push t p v) j = Null" "j < heap_limit (v_push t p v)"
    using vl_idle_status [OF ok] vl_idle_bound [OF ok] by (auto simp: v_push_def)
next
  fix c d j assume "idl (v_push t p v) c = Some j" "idl (v_push t p v) d = Some j"
  then show "c = d" using vl_idle_unique [OF ok] by (simp add: v_push_def)
qed

lemma vcur_ok_push:
  assumes "vcur_ok X v d" and "cur v d \<noteq> Some t"
  shows "vcur_ok X (v_push t p v) d"
  using assms by (auto simp: vcur_ok_def v_push_def)

lemma vJ_push:
  assumes "vJ X v" and "vdet X t v"
  shows "vJ X (v_push t p v)"
  using assms by (simp add: vJ_def vdet_def vlists_ok_push vcur_ok_push)

lemma vdet_push:
  assumes "vdet X t v" and "t \<noteq> u"
  shows "vdet X t (v_push u p v)"
  using assms by (auto simp: vdet_def v_push_def)

lemma in_tl: "u \<in> set (tl xs) \<Longrightarrow> u \<in> set xs"
  by (cases xs) auto

lemma vlists_ok_pop:
  assumes ok: "vlists_ok v"
  shows "vlists_ok (v_pop p v)"
proof (rule vlI)
  fix q show "distinct (wl (v_pop p v) q)"
    using vl_distinct [OF ok] by (simp add: v_pop_def distinct_tl)
next
  fix q u assume "u \<in> set (wl (v_pop p v) q)"
  then have "u \<in> set (wl v q)"
    by (auto simp: v_pop_def split: if_splits dest: in_tl)
  then show "st (v_pop p v) u = req q" "u < heap_limit (v_pop p v)"
    using vl_status [OF ok] vl_bound [OF ok] by (auto simp: v_pop_def)
next
  fix q r u
  assume "u \<in> set (wl (v_pop p v) q)" "u \<in> set (wl (v_pop p v) r)"
  then have "u \<in> set (wl v q) \<and> u \<in> set (wl v r)"
    by (auto simp: v_pop_def split: if_splits dest: in_tl)
  then show "q = r" using vl_unique [OF ok] by blast
next
  fix c j assume "idl (v_pop p v) c = Some j"
  then have "idl v c = Some j" by (simp add: v_pop_def)
  then show "st (v_pop p v) j = Null" "j < heap_limit (v_pop p v)"
    using vl_idle_status [OF ok] vl_idle_bound [OF ok] by (auto simp: v_pop_def)
next
  fix c d j assume "idl (v_pop p v) c = Some j" "idl (v_pop p v) d = Some j"
  then show "c = d" using vl_idle_unique [OF ok] by (simp add: v_pop_def)
qed

lemma vJ_pop:
  assumes "vJ X v"
  shows "vJ X (v_pop p v)"
  using assms by (auto simp: vJ_def vlists_ok_pop) (auto simp: vcur_ok_def v_pop_def)

lemma vdet_pop: "vdet X t v \<Longrightarrow> vdet X t (v_pop p v)"
  by (auto simp: vdet_def v_pop_def dest: in_tl)

lemma vcur_status:
  "vJ X v \<Longrightarrow> d \<notin> X \<Longrightarrow> cur v d = Some t \<Longrightarrow> st v t = RUNNING \<or> st v t = Null"
  by (auto simp: vJ_def vcur_ok_def dest: vl_idle_status)

lemma vdet_pop_head:
  assumes j: "vJ X v" and h: "wl v p = h # rest"
  shows "vdet X h (v_pop p v)"
proof -
  have ok: "vlists_ok v" using j by (simp add: vJ_def)
  have m: "h \<in> set (wl v p)" using h by simp
  have s: "st v h = req p" using vl_status [OF ok m] .
  have 1: "h < heap_limit v" using vl_bound [OF ok m] .
  have 2: "h \<notin> set (wl (v_pop p v) q)" for q
  proof (cases "q = p")
    case True
    then show ?thesis using vl_distinct [OF ok, of p] h by (simp add: v_pop_def)
  next
    case False
    then show ?thesis using vl_unique [OF ok m, of q] by (auto simp: v_pop_def)
  qed
  have 3: "cur v d \<noteq> Some h" if "d \<notin> X" for d
    using vcur_status [OF j that, of h] s req_not [of p] by auto
  have 4: "idl v d \<noteq> Some h" for d
    using vl_idle_status [OF ok, of d h] s req_not [of p] by auto
  show ?thesis
    unfolding vdet_def using 1 2 3 4 by (simp add: v_pop_def)
qed

lemma vJ_release: "vJ X v \<Longrightarrow> vJ (insert c X) v"
  by (auto simp: vJ_def vcur_ok_def)

lemma vdet_release:
  assumes j: "vJ X v" and c: "c \<notin> X" and t: "cur v c = Some t" and i: "idl v c \<noteq> Some t"
  shows "vdet (insert c X) t v"
proof -
  have ok: "vlists_ok v" using j by (simp add: vJ_def)
  have co: "vcur_ok X v c" using j c by (simp add: vJ_def)
  have r: "st v t = RUNNING" "t < heap_limit v" "\<And>e. e \<noteq> c \<Longrightarrow> e \<notin> X \<Longrightarrow> cur v e \<noteq> Some t"
    using co t i by (auto simp: vcur_ok_def)
  have 2: "t \<notin> set (wl v p)" for p
    using vl_status [OF ok, of t p] r(1) req_not [of p] by auto
  have 4: "idl v d \<noteq> Some t" for d
    using vl_idle_status [OF ok, of d t] r(1) by auto
  show ?thesis
    unfolding vdet_def using r 2 4 by auto
qed

lemma vJ_run:
  assumes j: "vJ X v" and d: "vdet X t v"
  shows "vJ (X - {c}) (v_run c t v)"
proof -
  have ok: "vlists_ok v" using j by (simp add: vJ_def)
  have dt: "t < heap_limit v" "\<And>p. t \<notin> set (wl v p)" "\<And>e. e \<notin> X \<Longrightarrow> cur v e \<noteq> Some t"
    "\<And>e. idl v e \<noteq> Some t"
    using d by (auto simp: vdet_def)
  have l: "vlists_ok (v_run c t v)"
  proof (rule vlI)
    fix q show "distinct (wl (v_run c t v) q)"
      using vl_distinct [OF ok] by (simp add: v_run_def)
  next
    fix q u assume "u \<in> set (wl (v_run c t v) q)"
    then have "u \<in> set (wl v q)" "u \<noteq> t" using dt(2) by (auto simp: v_run_def)
    then show "st (v_run c t v) u = req q" "u < heap_limit (v_run c t v)"
      using vl_status [OF ok] vl_bound [OF ok] by (auto simp: v_run_def)
  next
    fix q r u
    assume "u \<in> set (wl (v_run c t v) q)" "u \<in> set (wl (v_run c t v) r)"
    then show "q = r" using vl_unique [OF ok] by (simp add: v_run_def)
  next
    fix e i assume "idl (v_run c t v) e = Some i"
    then have "idl v e = Some i" "i \<noteq> t" using dt(4) by (auto simp: v_run_def)
    then show "st (v_run c t v) i = Null" "i < heap_limit (v_run c t v)"
      using vl_idle_status [OF ok] vl_idle_bound [OF ok] by (auto simp: v_run_def)
  next
    fix e f i assume "idl (v_run c t v) e = Some i" "idl (v_run c t v) f = Some i"
    then show "e = f" using vl_idle_unique [OF ok] by (simp add: v_run_def)
  qed
  have k: "vcur_ok (X - {c}) (v_run c t v) e" if e: "e \<notin> X - {c}" for e
  proof (cases "e = c")
    case True
    then show ?thesis using dt(1,3) by (auto simp: vcur_ok_def v_run_def)
  next
    case False
    then have "vcur_ok X v e" using j e by (simp add: vJ_def)
    then show ?thesis using False dt(3) e by (auto simp: vcur_ok_def v_run_def)
  qed
  show ?thesis using l k by (simp add: vJ_def)
qed

lemma vJ_suspend:
  assumes j: "vJ X v"
  shows "vJ (X - {c}) (v_suspend c v)"
proof -
  have ok: "vlists_ok v" using j by (simp add: vJ_def)
  have l: "vlists_ok (v_suspend c v)"
    using ok by (simp add: vlists_ok_def v_suspend_def)
  have k: "vcur_ok (X - {c}) (v_suspend c v) e" if e: "e \<notin> X - {c}" for e
  proof (cases "e = c")
    case True
    have "cur v f \<noteq> Some i" if "idl v c = Some i" "f \<noteq> c" "f \<notin> X" for f i
    proof
      assume a: "cur v f = Some i"
      have "vcur_ok X v f" using j that(3) by (simp add: vJ_def)
      then have "idl v f = Some i \<or> st v i = RUNNING" using a by (simp add: vcur_ok_def)
      then show False
        using vl_idle_unique [OF ok that(1), of f] vl_idle_status [OF ok that(1)] that(2) by auto
    qed
    then show ?thesis
      using True vl_idle_bound [OF ok, of c] by (auto simp: vcur_ok_def v_suspend_def)
  next
    case False
    then have co: "vcur_ok X v e" using j e by (simp add: vJ_def)
    have "cur v e \<noteq> Some i" if "idl v c = Some i" for i
    proof
      assume a: "cur v e = Some i"
      then have "idl v e = Some i \<or> st v i = RUNNING" using co by (simp add: vcur_ok_def)
      then show False
        using vl_idle_unique [OF ok that, of e] vl_idle_status [OF ok that] False by auto
    qed
    then show ?thesis using co False by (auto simp: vcur_ok_def v_suspend_def)
  qed
  show ?thesis using l k by (simp add: vJ_def)
qed

lemma vlists_ok_alloc:
  assumes ok: "vlists_ok v"
  shows "vlists_ok (v_alloc v)"
proof (rule vlI)
  fix q show "distinct (wl (v_alloc v) q)"
    using vl_distinct [OF ok] by (simp add: v_alloc_def)
next
  fix q u assume "u \<in> set (wl (v_alloc v) q)"
  then have m: "u \<in> set (wl v q)" by (auto simp: v_alloc_def split: if_splits)
  then have "u < heap_limit v" using vl_bound [OF ok] by simp
  then show "st (v_alloc v) u = req q" "u < heap_limit (v_alloc v)"
    using vl_status [OF ok m] by (auto simp: v_alloc_def)
next
  fix q r u
  assume "u \<in> set (wl (v_alloc v) q)" "u \<in> set (wl (v_alloc v) r)"
  then have "u \<in> set (wl v q) \<and> u \<in> set (wl v r)"
    by (auto simp: v_alloc_def split: if_splits)
  then show "q = r" using vl_unique [OF ok] by blast
next
  fix e i assume "idl (v_alloc v) e = Some i"
  then have a: "idl v e = Some i" by (simp add: v_alloc_def)
  then have "i < heap_limit v" using vl_idle_bound [OF ok] by simp
  then show "st (v_alloc v) i = Null" "i < heap_limit (v_alloc v)"
    using vl_idle_status [OF ok a] by (auto simp: v_alloc_def)
next
  fix e f i assume "idl (v_alloc v) e = Some i" "idl (v_alloc v) f = Some i"
  then show "e = f" using vl_idle_unique [OF ok] by (simp add: v_alloc_def)
qed

lemma vJ_alloc:
  assumes j: "vJ X v"
  shows "vJ X (v_alloc v)"
proof -
  have k: "vcur_ok X (v_alloc v) e" if "vcur_ok X v e" for e
    using that by (auto simp: vcur_ok_def v_alloc_def)
  show ?thesis using j vlists_ok_alloc k by (simp add: vJ_def)
qed

lemma vdet_alloc_new:
  assumes j: "vJ X v"
  shows "vdet X (heap_limit v) (v_alloc v)"
proof -
  have ok: "vlists_ok v" using j by (simp add: vJ_def)
  have 2: "heap_limit v \<notin> set (wl (v_alloc v) p)" for p
    using vl_bound [OF ok, of "heap_limit v" p] by (auto simp: v_alloc_def)
  have 3: "cur v d \<noteq> Some (heap_limit v)" if "d \<notin> X" for d
    using j that by (auto simp: vJ_def vcur_ok_def)
  have 4: "idl v d \<noteq> Some (heap_limit v)" for d
    using vl_idle_bound [OF ok, of d "heap_limit v"] by auto
  show ?thesis unfolding vdet_def using 2 3 4 by (simp add: v_alloc_def)
qed

lemma vdet_alloc: "vdet X t v \<Longrightarrow> vdet X t (v_alloc v)"
  by (auto simp: vdet_def v_alloc_def)

lemma vJ_set_idle:
  assumes j: "vJ X v" and d: "vdet X a v" and n: "st v a = Null" and c: "c \<in> X"
  shows "vJ X (v_set_idle c a v)"
proof -
  have ok: "vlists_ok v" using j by (simp add: vJ_def)
  have dt: "a < heap_limit v" "\<And>e. idl v e \<noteq> Some a"
    using d by (auto simp: vdet_def)
  have l: "vlists_ok (v_set_idle c a v)"
  proof (rule vlI)
    fix q show "distinct (wl (v_set_idle c a v) q)"
      using vl_distinct [OF ok] by (simp add: v_set_idle_def)
  next
    fix q u assume "u \<in> set (wl (v_set_idle c a v) q)"
    then show "st (v_set_idle c a v) u = req q" "u < heap_limit (v_set_idle c a v)"
      using vl_status [OF ok] vl_bound [OF ok] by (auto simp: v_set_idle_def)
  next
    fix q r u
    assume "u \<in> set (wl (v_set_idle c a v) q)" "u \<in> set (wl (v_set_idle c a v) r)"
    then show "q = r" using vl_unique [OF ok] by (simp add: v_set_idle_def)
  next
    fix e i assume "idl (v_set_idle c a v) e = Some i"
    then have "(e = c \<and> i = a) \<or> idl v e = Some i"
      by (auto simp: v_set_idle_def split: if_splits)
    then show "st (v_set_idle c a v) i = Null" "i < heap_limit (v_set_idle c a v)"
      using vl_idle_status [OF ok] vl_idle_bound [OF ok] n dt(1) by (auto simp: v_set_idle_def)
  next
    fix e f i assume "idl (v_set_idle c a v) e = Some i" "idl (v_set_idle c a v) f = Some i"
    then show "e = f" using vl_idle_unique [OF ok] dt(2)
      by (auto simp: v_set_idle_def split: if_splits)
  qed
  have k: "vcur_ok X (v_set_idle c a v) e" if e: "e \<notin> X" for e
  proof -
    have "vcur_ok X v e" using j e by (simp add: vJ_def)
    moreover have "e \<noteq> c" using e c by auto
    ultimately show ?thesis by (auto simp: vcur_ok_def v_set_idle_def)
  qed
  show ?thesis using l k by (simp add: vJ_def)
qed

lemma vdet_set_idle: "vdet X t v \<Longrightarrow> t \<noteq> a \<Longrightarrow> vdet X t (v_set_idle c a v)"
  by (auto simp: vdet_def v_set_idle_def)

lemma vJ_closes:
  assumes "vJ X v" and "closes c v v'"
  shows "vJ (X - {c}) v'"
  using assms vJ_run [OF vJ_pop vdet_pop_head] vJ_suspend
  unfolding closes_def by blast

lemmas v_defs = v_push_def v_pop_def v_run_def v_suspend_def v_alloc_def v_set_idle_def

lemma fetch_cpu_view: "fetch_cpu self s = Returns s' \<Longrightarrow> view_of s' = view_of s"
  by (auto simp: fetch_cpu_def interrupt_send_def view_of_def Let_def
           split: list.splits if_splits)

lemma push_to_queue_view:
  assumes "push_to_queue self p s = Returns s'"
  shows "\<exists>t. p = Some t \<and> view_of s' = v_push t Ready (view_of s)"
proof -
  from assms obtain t where p: "p = Some t"
    by (cases p) (auto simp: push_to_queue_def)
  let ?s1 = "(set_status t READY s)\<lparr>ready_threads := ready_threads s @ [t]\<rparr>"
  have f: "fetch_cpu self ?s1 = Returns s'"
    using assms p by (auto simp: push_to_queue_def split: if_splits)
  have "view_of ?s1 = v_push t Ready (view_of s)"
    by (rule view.equality)
       (auto simp: view_of_def v_push_def set_status_def fun_eq_iff split: place.splits)
  then show ?thesis using fetch_cpu_view [OF f] p by simp
qed

lemma push_to_queue_kind:
  "push_to_queue self p s \<noteq> Switches w s'" "push_to_queue self p s \<noteq> Throws s'"
  by (auto simp: push_to_queue_def fetch_cpu_def Let_def split: option.splits list.splits if_splits)

lemma suspend_cpu_view:
  "suspend_cpu self s = Switches w s' \<Longrightarrow> view_of s' = v_suspend self (view_of s)"
  by (auto simp: suspend_cpu_def set_curr_thread_def Let_def view_of_def v_suspend_def
           split: option.splits if_splits intro!: view.equality)

lemma suspend_cpu_kind:
  "suspend_cpu self s \<noteq> Returns s'" "suspend_cpu self s \<noteq> Throws s'"
  by (auto simp: suspend_cpu_def Let_def split: option.splits)

lemma set_curr_thread_sel [simp]:
  "tcbs (set_curr_thread c p s) = tcbs s"
  "ready_threads (set_curr_thread c p s) = ready_threads s"
  "finished_threads (set_curr_thread c p s) = finished_threads s"
  "mutexes (set_curr_thread c p s) = mutexes s"
  "cvs (set_curr_thread c p s) = cvs s"
  "heap_top (set_curr_thread c p s) = heap_top s"
  "curr_thread (cpus (set_curr_thread c p s) d) = (if d = c then p else curr_thread (cpus s d))"
  "suspended_thread (cpus (set_curr_thread c p s) d) = suspended_thread (cpus s d)"
  by (simp_all add: set_curr_thread_def)

lemma set_status_sel [simp]:
  "cpus (set_status t x s) = cpus s"
  "ready_threads (set_status t x s) = ready_threads s"
  "finished_threads (set_status t x s) = finished_threads s"
  "mutexes (set_status t x s) = mutexes s"
  "cvs (set_status t x s) = cvs s"
  "heap_top (set_status t x s) = heap_top s"
  "status (tcbs (set_status t x s) u) = (if u = t then x else status (tcbs s u))"
  "join_q (tcbs (set_status t x s) u) = join_q (tcbs s u)"
  "tcb_id (tcbs (set_status t x s) u) = tcb_id (tcbs s u)"
  by (simp_all add: set_status_def)

lemma suspend_cpu_cases:
  "suspend_cpu self s = Aborts \<or>
   (\<exists>w s'. suspend_cpu self s = Switches w s' \<and> view_of s' = v_suspend self (view_of s))"
proof (cases "suspend_cpu self s")
  case (Returns x)
  then show ?thesis using suspend_cpu_kind(1) by blast
next
  case (Switches w x)
  then show ?thesis using suspend_cpu_view by blast
next
  case (Throws x)
  then show ?thesis using suspend_cpu_kind(2) by blast
next
  case Aborts
  then show ?thesis by simp
qed

lemma dispatch_view:
  assumes "ready_threads s = n # rest"
  shows "view_of (set_status n RUNNING
            ((set_curr_thread self (Some n) s)\<lparr>ready_threads := rest\<rparr>))
         = v_run self n (v_pop Ready (view_of s))"
  using assms
  by (intro view.equality)
     (auto simp: view_of_def v_defs set_status_def set_curr_thread_def fun_eq_iff
           split: place.splits)

lemma get_next_thread_view:
  assumes "get_next_thread self s = Switches w s'"
  shows "closes self (view_of s) (view_of s')"
proof (cases "ready_threads s")
  case Nil
  then have "suspend_cpu self s = Switches w s'" using assms by (simp add: get_next_thread_def)
  then show ?thesis by (simp add: closes_def suspend_cpu_view)
next
  case (Cons n rest)
  then have "s' = set_status n RUNNING ((set_curr_thread self (Some n) s)\<lparr>ready_threads := rest\<rparr>)"
    using assms by (auto simp: get_next_thread_def Let_def split: option.splits if_splits)
  moreover have "wl (view_of s) Ready = n # rest" using Cons by (simp add: view_of_def)
  ultimately show ?thesis using dispatch_view [OF Cons] unfolding closes_def by blast
qed

lemma get_next_thread_kind:
  "get_next_thread self s \<noteq> Returns s'" "get_next_thread self s \<noteq> Throws s'"
  by (auto simp: get_next_thread_def Let_def suspend_cpu_kind split: option.splits)

lemma get_next_thread_cases:
  "get_next_thread self s = Aborts \<or>
   (\<exists>w s'. get_next_thread self s = Switches w s' \<and> closes self (view_of s) (view_of s'))"
proof (cases "get_next_thread self s")
  case (Returns x)
  then show ?thesis using get_next_thread_kind(1) by blast
next
  case (Switches w x)
  then show ?thesis using get_next_thread_view by blast
next
  case (Throws x)
  then show ?thesis using get_next_thread_kind(2) by blast
next
  case Aborts
  then show ?thesis by simp
qed

lemma TCB_ctor_view:
  "TCB_ctor s = (a, s1) \<Longrightarrow> a = heap_top s \<and> view_of s1 = v_alloc (view_of s)"
  by (auto simp: TCB_ctor_def view_of_def v_alloc_def fun_eq_iff
           split: place.splits intro!: view.equality)

lemma vJ_wake:
  assumes "vJ X v" and "wl v p = h # rest"
  shows "vJ X (v_push h Ready (v_pop p v))"
  using vJ_push [OF vJ_pop vdet_pop_head] assms by blast

lemma vdet_wake:
  assumes "vdet X t v" and "wl v p = h # rest"
  shows "vdet X t (v_push h Ready (v_pop p v))"
proof -
  have "h \<in> set (wl v p)" using assms(2) by simp
  then have "t \<noteq> h" using assms(1) by (auto simp: vdet_def)
  then show ?thesis using vdet_push [OF vdet_pop] assms(1) by blast
qed

lemma vJ_block:
  assumes j: "vJ {} v" and t: "cur v c = Some t" and i: "idl v c \<noteq> Some t"
    and cl: "closes c (v_push t p v) v'"
  shows "vJ {} v'"
proof -
  have "vJ {c} v" using vJ_release [OF j] by simp
  moreover have "vdet {c} t v" using vdet_release [OF j _ t i] by simp
  ultimately have "vJ {c} (v_push t p v)" by (rule vJ_push)
  then show ?thesis using vJ_closes [OF _ cl] by fastforce
qed

lemma runs_user_threadD:
  "runs_user_thread self s \<Longrightarrow>
     \<exists>t. cur (view_of s) self = Some t \<and> idl (view_of s) self \<noteq> Some t
          \<and> curr_thread (cpus s self) = Some t"
  by (auto simp: runs_user_thread_def view_of_def split: option.splits)

text \<open>The thread constructor.\<close>

lemma thread_ctor_Inv:
  assumes "Inv s" and "thread_ctor self func s = Returns s'"
  shows "Inv s'"
proof -
  obtain a s1 where c: "TCB_ctor s = (a, s1)" by (cases "TCB_ctor s")
  then have p: "push_to_queue self (Some a) s1 = Returns s'"
    using assms(2) by (auto simp: thread_ctor_def split: if_splits)
  have v1: "view_of s1 = v_alloc (view_of s)" "a = heap_limit (view_of s)"
    using TCB_ctor_view [OF c] by (auto simp: view_of_def)
  have "view_of s' = v_push a Ready (v_alloc (view_of s))"
    using push_to_queue_view [OF p] v1 by simp
  then show ?thesis
    using assms(1) vJ_push [OF vJ_alloc vdet_alloc_new] v1(2) unfolding Inv_def by metis
qed

lemma thread_ctor_kind:
  "thread_ctor self func s \<noteq> Switches w s'" "thread_ctor self func s \<noteq> Throws s'"
  by (auto simp: thread_ctor_def push_to_queue_kind split: prod.splits)

text \<open>The mutex functions.\<close>

lemma internal_lock_view:
  assumes "internal_lock self m s = r"
  shows "r = Aborts \<or> (\<exists>s'. r = Returns s' \<and> view_of s' = view_of s) \<or>
         (\<exists>w s' t. r = Switches w s' \<and> curr_thread (cpus s self) = Some t \<and>
            closes self (v_push t (On_mutex m) (view_of s)) (view_of s'))"
proof (cases "curr_thread (cpus s self)")
  case None
  then show ?thesis using assms by (simp add: internal_lock_def)
next
  case (Some t)
  show ?thesis
  proof (cases "free (mutexes s m)")
    case True
    then have "r = Returns (s\<lparr>mutexes := (mutexes s)(m := (mutexes s m)
                 \<lparr>thread_holding_lock := sint (tcb_id (tcbs s t)), free := False\<rparr>)\<rparr>)"
      using assms Some by (simp add: internal_lock_def)
    moreover have "view_of (s\<lparr>mutexes := (mutexes s)(m := (mutexes s m)
                 \<lparr>thread_holding_lock := sint (tcb_id (tcbs s t)), free := False\<rparr>)\<rparr>) = view_of s"
      by (auto simp: view_of_def fun_eq_iff split: place.splits)
    ultimately show ?thesis by simp
  next
    case False
    let ?s2 = "(set_status t BLOCKED s)\<lparr>mutexes := (mutexes s)(m := (mutexes s m)
                          \<lparr>waiting_threads := waiting_threads (mutexes s m) @ [t]\<rparr>)\<rparr>"
    have g: "r = get_next_thread self ?s2"
      using assms Some False by (simp add: internal_lock_def Let_def)
    have v: "view_of ?s2 = v_push t (On_mutex m) (view_of s)"
      by (rule view.equality)
         (auto simp: view_of_def v_push_def set_status_def fun_eq_iff split: place.splits)
    show ?thesis
      using get_next_thread_cases [of self ?s2] Some unfolding g v by blast
  qed
qed

lemma internal_lock_Inv:
  assumes "Inv s" and "runs_user_thread self s"
    and "internal_lock self m s = r" and "r = Returns s' \<or> r = Switches w s' \<or> r = Throws s'"
  shows "Inv s'"
proof -
  from runs_user_threadD [OF assms(2)] obtain t where
    t: "cur (view_of s) self = Some t" "idl (view_of s) self \<noteq> Some t"
       "curr_thread (cpus s self) = Some t" by blast
  from internal_lock_view [OF assms(3)] assms(4)
  have "view_of s' = view_of s \<or> closes self (v_push t (On_mutex m) (view_of s)) (view_of s')"
    using t(3) by auto
  then show ?thesis
    using assms(1) vJ_block [OF _ t(1,2)] unfolding Inv_def by auto
qed

lemma vJ_wakes: "vJ X v \<Longrightarrow> wakes p v v' \<Longrightarrow> vJ X v'"
  unfolding wakes_def using vJ_wake by blast

lemma vdet_wakes: "vdet X t v \<Longrightarrow> wakes p v v' \<Longrightarrow> vdet X t v'"
  unfolding wakes_def using vdet_wake by blast

lemma wakes_cur: "wakes p v v' \<Longrightarrow> cur v' = cur v \<and> idl v' = idl v"
  unfolding wakes_def by (auto simp: v_defs)

lemma internal_unlock_view:
  assumes "internal_unlock self m s = r"
  shows "r = Aborts \<or> r = Throws s \<or>
         (\<exists>s'. r = Returns s' \<and> wakes (On_mutex m) (view_of s) (view_of s') \<and> cpus s' = cpus s
               \<and> (\<forall>u. tcb_id (tcbs s' u) = tcb_id (tcbs s u)))"
proof (cases "curr_thread (cpus s self)")
  case None
  then show ?thesis using assms by (simp add: internal_unlock_def)
next
  case (Some t)
  show ?thesis
  proof (cases "thread_holding_lock (mutexes s m) \<noteq> sint (tcb_id (tcbs s t))")
    case True
    then show ?thesis using assms Some by (simp add: internal_unlock_def)
  next
    case own: False
    let ?s1 = "s\<lparr>mutexes := (mutexes s)(m := (mutexes s m)\<lparr>free := True\<rparr>)\<rparr>"
    show ?thesis
    proof (cases "waiting_threads (mutexes s m)")
      case Nil
      then have "r = Returns ?s1" using assms Some own by (simp add: internal_unlock_def)
      moreover have "view_of ?s1 = view_of s"
        by (auto simp: view_of_def fun_eq_iff split: place.splits)
      ultimately show ?thesis by (simp add: wakes_def)
    next
      case (Cons w ws)
      let ?s3 = "s\<lparr>mutexes := (mutexes s)(m := (mutexes s m)\<lparr>waiting_threads := ws,
                     thread_holding_lock := sint (tcb_id (tcbs s w)), free := False\<rparr>)\<rparr>"
      have v3: "view_of ?s3 = v_pop (On_mutex m) (view_of s)"
        using Cons by (intro view.equality)
          (auto simp: view_of_def v_pop_def fun_eq_iff split: place.splits)
      have w: "wl (view_of s) (On_mutex m) = w # ws" using Cons by (simp add: view_of_def)
      have r: "r = Aborts \<or> r = push_to_queue self (Some w) ?s3"
        using assms Some own Cons by (auto simp: internal_unlock_def Let_def)
      show ?thesis
      proof (cases "push_to_queue self (Some w) ?s3")
        case (Returns s')
        have "view_of s' = v_push w Ready (v_pop (On_mutex m) (view_of s))"
          using push_to_queue_view [OF Returns] v3 by simp
        moreover have "cpus s' = cpus s" using push_to_queue_frame [OF Returns] by simp
        moreover have "\<forall>u. tcb_id (tcbs s' u) = tcb_id (tcbs s u)"
          using Returns
          by (auto simp: push_to_queue_def fetch_cpu_def interrupt_send_def Let_def set_status_def
                   split: if_splits list.splits)
        ultimately show ?thesis using r Returns w unfolding wakes_def by auto
      next
        case (Switches x y)
        then show ?thesis using push_to_queue_kind by blast
      next
        case (Throws x)
        then show ?thesis using push_to_queue_kind by blast
      next
        case Aborts
        then show ?thesis using r by auto
      qed
    qed
  qed
qed

lemma internal_unlock_Inv:
  assumes "Inv s"
    and "internal_unlock self m s = r" and "r = Returns s' \<or> r = Switches w s' \<or> r = Throws s'"
  shows "Inv s'"
  using internal_unlock_view [OF assms(2)] assms(1,3) vJ_wakes unfolding Inv_def by auto

text \<open>The condition-variable functions.\<close>

lemma signal_view:
  assumes "signal self c s = r"
  shows "r = Aborts \<or> (\<exists>s'. r = Returns s' \<and> wakes (On_cv c) (view_of s) (view_of s'))"
proof (cases "cv_waiting_threads (cvs s c)")
  case Nil
  then show ?thesis using assms by (auto simp: signal_def wakes_def)
next
  case (Cons h rest)
  let ?s1 = "s\<lparr>cvs := (cvs s)(c := (cvs s c)\<lparr>cv_waiting_threads := rest\<rparr>)\<rparr>"
  have v1: "view_of ?s1 = v_pop (On_cv c) (view_of s)"
    using Cons by (intro view.equality)
      (auto simp: view_of_def v_pop_def fun_eq_iff split: place.splits)
  have w: "wl (view_of s) (On_cv c) = h # rest" using Cons by (simp add: view_of_def)
  have r: "r = push_to_queue self (Some h) ?s1" using assms Cons by (simp add: signal_def)
  show ?thesis
  proof (cases "push_to_queue self (Some h) ?s1")
    case (Returns s')
    have "view_of s' = v_push h Ready (v_pop (On_cv c) (view_of s))"
      using push_to_queue_view [OF Returns] v1 by simp
    then show ?thesis using r Returns w unfolding wakes_def by auto
  next
    case (Switches x y)
    then show ?thesis using push_to_queue_kind by blast
  next
    case (Throws x)
    then show ?thesis using push_to_queue_kind by blast
  next
    case Aborts
    then show ?thesis using r by auto
  qed
qed

lemma signal_Inv:
  assumes "Inv s"
    and "signal self c s = r" and "r = Returns s' \<or> r = Switches w s' \<or> r = Throws s'"
  shows "Inv s'"
  using signal_view [OF assms(2)] assms(1,3) vJ_wakes unfolding Inv_def by auto

lemma broadcast_Inv_aux:
  "Inv s \<Longrightarrow> broadcast self c s = r \<Longrightarrow> r = Aborts \<or> (\<exists>s'. r = Returns s' \<and> Inv s')"
proof (induction self c s arbitrary: r rule: broadcast.induct)
  case (1 self c s)
  show ?case
  proof (cases "cv_waiting_threads (cvs s c)")
    case Nil
    then have "broadcast self c s = Returns s" by (subst broadcast.simps) simp
    then show ?thesis using "1.prems" by auto
  next
    case (Cons h rest)
    let ?s1 = "s\<lparr>cvs := (cvs s)(c := (cvs s c)\<lparr>cv_waiting_threads := rest\<rparr>)\<rparr>"
    have sg: "signal self c s = push_to_queue self (Some h) ?s1"
      using Cons by (simp add: signal_def)
    show ?thesis
    proof (cases "push_to_queue self (Some h) ?s1")
      case (Returns s1)
      have i1: "Inv s1" using signal_Inv [OF "1.prems"(1) sg] Returns by simp
      have "broadcast self c s = broadcast self c s1"
        using Cons Returns by (subst broadcast.simps) simp
      then show ?thesis using "1.IH" [OF Cons Returns i1] "1.prems"(2) by simp
    next
      case (Switches x y)
      then show ?thesis using push_to_queue_kind by blast
    next
      case (Throws x)
      then show ?thesis using push_to_queue_kind by blast
    next
      case Aborts
      then have "broadcast self c s = Aborts"
        using Cons by (subst broadcast.simps) simp
      then show ?thesis using "1.prems" by simp
    qed
  qed
qed

lemma broadcast_Inv:
  assumes "Inv s"
    and "broadcast self c s = r" and "r = Returns s' \<or> r = Switches w s' \<or> r = Throws s'"
  shows "Inv s'"
  using broadcast_Inv_aux [OF assms(1,2)] assms(3) by auto

lemma view_of_set_status:
  "view_of (set_status n x s) = (view_of s)\<lparr>st := (st (view_of s))(n := x)\<rparr>"
  by (rule view.equality)
     (auto simp: view_of_def set_status_def fun_eq_iff split: place.splits)

lemma wait_view:
  assumes "wait self c mtx s = r"
  shows "r = Aborts \<or> r = Throws s \<or>
         (\<exists>w s' t v1. r = Switches w s' \<and> curr_thread (cpus s self) = Some t \<and>
            wakes (On_mutex mtx) (view_of s) v1 \<and>
            closes self (v_push t (On_cv c) v1) (view_of s'))"
proof (cases "curr_thread (cpus s self)")
  case None
  then show ?thesis using assms by (simp add: wait_def)
next
  case (Some t)
  show ?thesis
  proof (cases "thread_holding_lock (mutexes s mtx) = sint (tcb_id (tcbs s t))")
    case False
    then show ?thesis using assms Some by (simp add: wait_def)
  next
    case True
    from internal_unlock_view [OF refl, of self mtx s]
    consider "internal_unlock self mtx s = Aborts" | "internal_unlock self mtx s = Throws s"
      | s1 where "internal_unlock self mtx s = Returns s1"
          "wakes (On_mutex mtx) (view_of s) (view_of s1)" "cpus s1 = cpus s"
      by blast
    then show ?thesis
    proof cases
      case 1
      then show ?thesis using assms Some True by (simp add: wait_def and_then_def)
    next
      case 2
      then show ?thesis using assms Some True by (simp add: wait_def and_then_def)
    next
      case 3
      let ?s3 = "(set_status t BLOCKED s1)\<lparr>cvs := (cvs s1)(c := (cvs s1 c)
                    \<lparr>cv_waiting_threads := cv_waiting_threads (cvs s1 c) @ [t]\<rparr>)\<rparr>"
      have g: "r = get_next_thread self ?s3"
        using assms Some True 3(1,3) by (simp add: wait_def and_then_def Let_def)
      have v: "view_of ?s3 = v_push t (On_cv c) (view_of s1)"
        by (rule view.equality)
           (auto simp: view_of_def v_push_def set_status_def fun_eq_iff split: place.splits)
      show ?thesis
        using get_next_thread_cases [of self ?s3] Some 3(2) unfolding g v by blast
    qed
  qed
qed

lemma wait_Inv:
  assumes "Inv s" and "runs_user_thread self s"
    and "wait self c mtx s = r" and "r = Returns s' \<or> r = Switches w s' \<or> r = Throws s'"
  shows "Inv s'"
proof -
  from runs_user_threadD [OF assms(2)] obtain t where
    t: "cur (view_of s) self = Some t" "idl (view_of s) self \<noteq> Some t"
       "curr_thread (cpus s self) = Some t" by blast
  from wait_view [OF assms(3)] assms(4) t(3)
  consider "s' = s"
    | v1 where "wakes (On_mutex mtx) (view_of s) v1"
        "closes self (v_push t (On_cv c) v1) (view_of s')"
    by auto
  then show ?thesis
  proof cases
    case 1
    then show ?thesis using assms(1) by simp
  next
    case 2
    have "vJ {} v1" using vJ_wakes [OF _ 2(1)] assms(1) by (simp add: Inv_def)
    moreover have "cur v1 self = Some t" "idl v1 self \<noteq> Some t"
      using wakes_cur [OF 2(1)] t by auto
    ultimately show ?thesis using vJ_block [OF _ _ _ 2(2)] by (simp add: Inv_def)
  qed
qed

text \<open>Join and yield.\<close>

lemma join_view:
  assumes "join self h s = r"
  shows "r = Aborts \<or> r = Returns s \<or>
         (\<exists>w s' t target. r = Switches w s' \<and> curr_thread (cpus s self) = Some t \<and>
            closes self (v_push t (On_join target) (view_of s)) (view_of s'))"
proof (cases h)
  case None
  then show ?thesis using assms by (simp add: join_def)
next
  case (Some target)
  show ?thesis
  proof (cases "status (tcbs s target) \<noteq> FINISHED")
    case False
    then show ?thesis using assms Some by (simp add: join_def)
  next
    case live: True
    show ?thesis
    proof (cases "curr_thread (cpus s self)")
      case None
      then show ?thesis using assms Some live by (simp add: join_def)
    next
      case t: (Some t)
      let ?s1 = "set_status t BLOCKED s"
      let ?s2 = "?s1\<lparr>tcbs := (tcbs ?s1)(target := (tcbs ?s1 target)
                               \<lparr>join_q := join_q (tcbs ?s1 target) @ [t]\<rparr>)\<rparr>"
      have g: "r = get_next_thread self ?s2"
        using assms Some live t by (simp add: join_def Let_def)
      have v: "view_of ?s2 = v_push t (On_join target) (view_of s)"
        by (rule view.equality)
           (auto simp: view_of_def v_push_def set_status_def fun_eq_iff split: place.splits)
      show ?thesis
        using get_next_thread_cases [of self ?s2] t unfolding g v by blast
    qed
  qed
qed

lemma join_Inv:
  assumes "Inv s" and "runs_user_thread self s"
    and "join self h s = r" and "r = Returns s' \<or> r = Switches w s' \<or> r = Throws s'"
  shows "Inv s'"
proof -
  from runs_user_threadD [OF assms(2)] obtain t where
    t: "cur (view_of s) self = Some t" "idl (view_of s) self \<noteq> Some t"
       "curr_thread (cpus s self) = Some t" by blast
  from join_view [OF assms(3)] assms(4) t(3)
  have "s' = s \<or> (\<exists>target. closes self (v_push t (On_join target) (view_of s)) (view_of s'))"
    by auto
  then show ?thesis
    using assms(1) vJ_block [OF _ t(1,2)] unfolding Inv_def by auto
qed

lemma yield_view:
  assumes "yield self s = r"
  shows "r = Aborts \<or> r = Returns s \<or>
         (\<exists>w s' t n rest. r = Switches w s' \<and> curr_thread (cpus s self) = Some t \<and>
            ready_threads s = n # rest \<and>
            view_of s' = v_run self n (v_push t Ready (v_pop Ready (view_of s))))"
proof (cases "\<not> booted s \<or> curr_thread (cpus s self) = None")
  case True
  have "yield self s = Aborts"
    using True by (cases "booted s") (simp_all add: yield_def)
  then show ?thesis using assms by simp
next
  case False
  then obtain t where t: "curr_thread (cpus s self) = Some t" and b: "booted s" by auto
  show ?thesis
  proof (cases "ready_threads s")
    case Nil
    then show ?thesis using assms t b by (simp add: yield_def)
  next
    case (Cons n rest)
    let ?s2 = "(set_curr_thread self (Some n) s)\<lparr>ready_threads := rest\<rparr>"
    have v2: "view_of ?s2 = (v_pop Ready (view_of s))\<lparr>cur := (cur (view_of s))(self := Some n)\<rparr>"
      using Cons by (intro view.equality)
        (auto simp: view_of_def v_pop_def set_curr_thread_def fun_eq_iff split: place.splits)
    have r: "r = and_then (push_to_queue self (Some t) ?s2) (\<lambda>s3.
              case curr_thread (cpus s3 self) of None \<Rightarrow> Aborts
              | Some cu \<Rightarrow> Switches Swap_yield (set_status cu RUNNING s3))"
      using assms t b Cons by (simp add: yield_def Let_def)
    show ?thesis
    proof (cases "push_to_queue self (Some t) ?s2")
      case (Returns s3)
      have c3: "curr_thread (cpus s3 self) = Some n"
        using push_to_queue_frame [OF Returns] by simp
      have v3: "view_of s3 = v_push t Ready (view_of ?s2)"
        using push_to_queue_view [OF Returns] by simp
      have "r = Switches Swap_yield (set_status n RUNNING s3)"
        using r Returns c3 by (simp add: and_then_def)
      moreover have "view_of (set_status n RUNNING s3)
                     = v_run self n (v_push t Ready (v_pop Ready (view_of s)))"
        unfolding view_of_set_status v3 v2
        by (rule view.equality) (auto simp: v_defs fun_eq_iff)
      ultimately show ?thesis using t Cons by blast
    next
      case (Switches x y)
      then show ?thesis using push_to_queue_kind by blast
    next
      case (Throws x)
      then show ?thesis using push_to_queue_kind by blast
    next
      case Aborts
      then show ?thesis using r by (simp add: and_then_def)
    qed
  qed
qed

lemma vJ_yield:
  assumes j: "vJ {} v" and t: "cur v c = Some t" and i: "idl v c \<noteq> Some t"
    and r: "wl v Ready = n # rest"
  shows "vJ {} (v_run c n (v_push t Ready (v_pop Ready v)))"
proof -
  have j1: "vJ {c} v" using vJ_release [OF j] by simp
  have d1: "vdet {c} t v" using vdet_release [OF j _ t i] by simp
  have j2: "vJ {c} (v_pop Ready v)" using vJ_pop [OF j1] .
  have dn: "vdet {c} n (v_pop Ready v)" using vdet_pop_head [OF j1 r] .
  have dt: "vdet {c} t (v_pop Ready v)" using vdet_pop [OF d1] .
  have "n \<in> set (wl v Ready)" using r by simp
  then have ne: "n \<noteq> t" using d1 by (auto simp: vdet_def)
  have j3: "vJ {c} (v_push t Ready (v_pop Ready v))" using vJ_push [OF j2 dt] .
  have d3: "vdet {c} n (v_push t Ready (v_pop Ready v))" using vdet_push [OF dn ne] .
  show ?thesis using vJ_run [OF j3 d3, of c] by simp
qed

lemma yield_Inv:
  assumes "Inv s" and "runs_user_thread self s"
    and "yield self s = r" and "r = Returns s' \<or> r = Switches w s' \<or> r = Throws s'"
  shows "Inv s'"
proof -
  from runs_user_threadD [OF assms(2)] obtain t where
    t: "cur (view_of s) self = Some t" "idl (view_of s) self \<noteq> Some t"
       "curr_thread (cpus s self) = Some t" by blast
  from yield_view [OF assms(3)] assms(4) t(3)
  consider "s' = s"
    | n rest where "ready_threads s = n # rest"
        "view_of s' = v_run self n (v_push t Ready (v_pop Ready (view_of s)))"
    by auto
  then show ?thesis
  proof cases
    case 1
    then show ?thesis using assms(1) by simp
  next
    case 2
    have "wl (view_of s) Ready = n # rest" using 2(1) by (simp add: view_of_def)
    then show ?thesis
      using vJ_yield [OF _ t(1,2)] assms(1) 2(2) by (simp add: Inv_def)
  qed
qed

text \<open>The end of a thread's body.\<close>

lemma drain_join_q_Inv:
  "Inv s \<Longrightarrow> drain_join_q self s = r \<Longrightarrow>
     r = Aborts \<or> (\<exists>s'. r = Returns s' \<and> Inv s' \<and> cpus s' = cpus s)"
proof (induction self s arbitrary: r rule: drain_join_q.induct)
  case (1 self s)
  show ?case
  proof (cases "curr_thread (cpus s self)")
    case None
    then have "drain_join_q self s = Aborts" by (subst drain_join_q.simps) simp
    then show ?thesis using "1.prems" by simp
  next
    case (Some t)
    show ?thesis
    proof (cases "join_q (tcbs s t)")
      case Nil
      then have "drain_join_q self s = Returns s" using Some by (rule drain_join_q_empty [rotated])
      then show ?thesis using "1.prems" by auto
    next
      case (Cons h rest)
      let ?s1 = "s\<lparr>tcbs := (tcbs s)(t := (tcbs s t)\<lparr>join_q := rest\<rparr>)\<rparr>"
      have v1: "view_of ?s1 = v_pop (On_join t) (view_of s)"
        using Cons by (intro view.equality)
          (auto simp: view_of_def v_pop_def fun_eq_iff split: place.splits)
      have w: "wl (view_of s) (On_join t) = h # rest" using Cons by (simp add: view_of_def)
      show ?thesis
      proof (cases "push_to_queue self (Some h) ?s1")
        case (Returns s2)
        have "view_of s2 = v_push h Ready (v_pop (On_join t) (view_of s))"
          using push_to_queue_view [OF Returns] v1 by simp
        then have i2: "Inv s2"
          using vJ_wake [OF _ w] "1.prems"(1) by (simp add: Inv_def)
        have c2: "cpus s2 = cpus s" using push_to_queue_frame [OF Returns] by simp
        have "drain_join_q self s = drain_join_q self s2"
          using Some Cons Returns by (subst drain_join_q.simps) simp
        then show ?thesis
          using "1.IH" [OF Some Cons Returns i2 refl] "1.prems"(2) c2 by auto
      next
        case (Switches x y)
        then show ?thesis using push_to_queue_kind by blast
      next
        case (Throws x)
        then show ?thesis using push_to_queue_kind by blast
      next
        case Aborts
        then have "drain_join_q self s = Aborts"
          using Some Cons by (subst drain_join_q.simps) simp
        then show ?thesis using "1.prems" by simp
      qed
    qed
  qed
qed

lemma thread_execution_view:
  assumes "Inv s" and "thread_execution self s = r"
  shows "r = Aborts \<or>
         (\<exists>w s' s1 t. r = Switches w s' \<and> Inv s1 \<and> cpus s1 = cpus s \<and>
            curr_thread (cpus s self) = Some t \<and>
            closes self (v_push t Finished (view_of s1)) (view_of s'))"
proof -
  from drain_join_q_Inv [OF assms(1) refl, of self]
  consider "drain_join_q self s = Aborts"
    | s1 where "drain_join_q self s = Returns s1" "Inv s1" "cpus s1 = cpus s"
    by blast
  then show ?thesis
  proof cases
    case 1
    then show ?thesis using assms(2) by (simp add: thread_execution_def and_then_def)
  next
    case 2
    show ?thesis
    proof (cases "curr_thread (cpus s self)")
      case None
      then show ?thesis using assms(2) 2 by (simp add: thread_execution_def and_then_def)
    next
      case (Some t)
      let ?s3 = "(set_status t FINISHED s1)\<lparr>finished_threads := finished_threads s1 @ [t]\<rparr>"
      have v3: "view_of ?s3 = v_push t Finished (view_of s1)"
        by (rule view.equality)
           (auto simp: view_of_def v_push_def set_status_def fun_eq_iff split: place.splits)
      show ?thesis
      proof (cases "ready_threads ?s3")
        case Nil
        then have "r = suspend_cpu self ?s3"
          using assms(2) 2 Some by (simp add: thread_execution_def and_then_def Let_def)
        then have "r = Aborts \<or> (\<exists>w s'. r = Switches w s' \<and>
                      view_of s' = v_suspend self (view_of ?s3))"
          using suspend_cpu_cases [of self ?s3] by auto
        then show ?thesis using 2 Some unfolding v3 closes_def by blast
      next
        case (Cons n rest)
        then have "r = Switches Set_context (set_status n RUNNING
                     ((set_curr_thread self (Some n) ?s3)\<lparr>ready_threads := rest\<rparr>))"
          using assms(2) 2 Some by (simp add: thread_execution_def and_then_def Let_def)
        moreover have "wl (view_of ?s3) Ready = n # rest" using Cons by (simp add: view_of_def)
        ultimately show ?thesis
          using dispatch_view [OF Cons, of self] 2 Some unfolding v3 closes_def by blast
      qed
    qed
  qed
qed

lemma thread_execution_Inv:
  assumes "Inv s" and "runs_user_thread self s"
    and "thread_execution self s = r" and "r = Returns s' \<or> r = Switches w s' \<or> r = Throws s'"
  shows "Inv s'"
proof -
  from runs_user_threadD [OF assms(2)] obtain t where
    t: "curr_thread (cpus s self) = Some t" "suspended_thread (cpus s self) \<noteq> Some t"
    by (auto simp: view_of_def)
  from thread_execution_view [OF assms(1,3)] assms(4) t(1)
  obtain s1 where s1: "Inv s1" "cpus s1 = cpus s"
      "closes self (v_push t Finished (view_of s1)) (view_of s')"
    by auto
  have "cur (view_of s1) self = Some t" "idl (view_of s1) self \<noteq> Some t"
    using t s1(2) by (simp_all add: view_of_def)
  then show ?thesis
    using vJ_block [OF _ _ _ s1(3)] s1(1) by (simp add: Inv_def)
qed

text \<open>Interrupts and the start of a CPU.\<close>

lemma vJ_redispatch:
  assumes "vJ {} v" and "closes c v v'"
  shows "vJ {} v'"
  using vJ_closes [OF vJ_release [OF assms(1), of c] assms(2)] by simp

lemma ipi_handler_view:
  assumes "ipi_handler self s = r"
  shows "r = Aborts \<or> r = Returns s \<or>
         (\<exists>w s'. r = Switches w s' \<and> closes self (view_of s) (view_of s'))"
proof (cases "ready_threads s")
  case Nil
  then show ?thesis using assms by (simp add: ipi_handler_def)
next
  case (Cons n rest)
  then have "r = Aborts \<or> r = Switches Swap_ipi_handler (set_status n RUNNING
                     ((set_curr_thread self (Some n) s)\<lparr>ready_threads := rest\<rparr>))"
    using assms by (auto simp: ipi_handler_def Let_def)
  moreover have "wl (view_of s) Ready = n # rest" using Cons by (simp add: view_of_def)
  ultimately show ?thesis
    using dispatch_view [OF Cons, of self] unfolding closes_def by blast
qed

lemma ipi_handler_Inv:
  assumes "Inv s"
    and "ipi_handler self s = r" and "r = Returns s' \<or> r = Switches w s' \<or> r = Throws s'"
  shows "Inv s'"
  using ipi_handler_view [OF assms(2)] assms(1,3) vJ_redispatch unfolding Inv_def by auto

lemma timer_interrupt_handler_Inv:
  assumes "Inv s"
    and "timer_interrupt_handler self s = r"
    and "r = Returns s' \<or> r = Switches w s' \<or> r = Throws s'"
  shows "Inv s'"
proof (cases "curr_thread (cpus s self) = suspended_thread (cpus s self)")
  case True
  then show ?thesis using assms by (auto simp: timer_interrupt_handler_def)
next
  case False
  then have y: "yield self s = r" using assms(2) by (simp add: timer_interrupt_handler_def)
  show ?thesis
  proof (cases "curr_thread (cpus s self)")
    case None
    then have "r = Aborts" using y by (cases "booted s") (auto simp: yield_def)
    then show ?thesis using assms(3) by simp
  next
    case (Some t)
    then have "runs_user_thread self s" using False by (simp add: runs_user_thread_def)
    then show ?thesis using yield_Inv [OF assms(1) _ y assms(3)] by simp
  qed
qed

lemma suspend_helper_view: "view_of (suspend_helper self s) = view_of s"
  by (auto simp: view_of_def suspend_helper_def fun_eq_iff split: place.splits)

lemma suspend_helper_Inv: "Inv s \<Longrightarrow> Inv (suspend_helper self s)"
  by (simp add: Inv_def suspend_helper_view)

lemma begin_process_view:
  assumes "begin_process self s = r"
  shows "r = Aborts \<or> (\<exists>w s'. r = Switches w s' \<and> closes self (view_of s) (view_of s'))"
proof (cases "ready_threads s")
  case Nil
  then have "r = suspend_cpu self s" using assms by (simp add: begin_process_def)
  then have "r = Aborts \<or> (\<exists>w s'. r = Switches w s' \<and> view_of s' = v_suspend self (view_of s))"
    using suspend_cpu_cases [of self s] by auto
  then show ?thesis unfolding closes_def by blast
next
  case (Cons n rest)
  then have "r = Switches Set_context (set_status n RUNNING
                     ((set_curr_thread self (Some n) s)\<lparr>ready_threads := rest\<rparr>))"
    using assms by (auto simp: begin_process_def Let_def)
  moreover have "wl (view_of s) Ready = n # rest" using Cons by (simp add: view_of_def)
  ultimately show ?thesis
    using dispatch_view [OF Cons, of self] unfolding closes_def by blast
qed

lemma cpu_ctor_Inv:
  assumes "Inv s"
    and "cpu_ctor self func s = r" and "r = Returns s' \<or> r = Switches w s' \<or> r = Throws s'"
  shows "Inv s'"
proof -
  let ?s2 = "s\<lparr>booted := True, num_cpus := num_cpus s + 1\<rparr>"
  obtain idle s3 where c3: "TCB_ctor ?s2 = (idle, s3)" by (cases "TCB_ctor ?s2")
  let ?s4 = "s3\<lparr>cpus := (cpus s3)(self := (cpus s3 self)\<lparr>suspended_thread := Some idle\<rparr>)\<rparr>"
  have v2: "view_of ?s2 = view_of s"
    by (auto simp: view_of_def fun_eq_iff split: place.splits)
  have v3: "view_of s3 = v_alloc (view_of s)" "idle = heap_limit (view_of s)"
    using TCB_ctor_view [OF c3] v2 by (auto simp: view_of_def)
  have v4: "view_of ?s4 = v_set_idle self idle (v_alloc (view_of s))"
    unfolding v3(1) [symmetric]
    by (rule view.equality)
       (auto simp: view_of_def v_set_idle_def fun_eq_iff split: place.splits)
  have j0: "vJ {self} (view_of s)" using assms(1) vJ_release [of "{}"] by (simp add: Inv_def)
  have j3: "vJ {self} (v_alloc (view_of s))" using vJ_alloc [OF j0] .
  have d3: "vdet {self} idle (v_alloc (view_of s))" using vdet_alloc_new [OF j0] v3(2) by simp
  have n3: "st (v_alloc (view_of s)) idle = Null" using v3(2) by (simp add: v_alloc_def)
  have j4: "vJ {self} (view_of ?s4)" using vJ_set_idle [OF j3 d3 n3] v4 by simp
  have fin: "vJ {} (view_of s')" if "begin_process self x = r" "vJ {self} (view_of x)" for x
  proof -
    from begin_process_view [OF that(1)] assms(3)
    have "closes self (view_of x) (view_of s')" by auto
    then show ?thesis using vJ_closes [OF that(2)] by fastforce
  qed
  show ?thesis
  proof (cases func)
    case None
    then have "begin_process self ?s4 = r"
      using assms(2) c3 by (simp add: cpu_ctor_def Let_def)
    then show ?thesis using fin j4 by (simp add: Inv_def)
  next
    case (Some f)
    obtain first s5 where c5: "TCB_ctor ?s4 = (first, s5)" by (cases "TCB_ctor ?s4")
    have v5: "view_of s5 = v_alloc (view_of ?s4)" "first = heap_limit (view_of ?s4)"
      using TCB_ctor_view [OF c5] by (auto simp: view_of_def)
    have r: "r = and_then (push_to_queue self (Some first) s5) (begin_process self)"
      using assms(2) c3 c5 Some by (simp add: cpu_ctor_def Let_def)
    show ?thesis
    proof (cases "push_to_queue self (Some first) s5")
      case (Returns s6)
      have "view_of s6 = v_push first Ready (v_alloc (view_of ?s4))"
        using push_to_queue_view [OF Returns] v5 by simp
      then have "vJ {self} (view_of s6)"
        using vJ_push [OF vJ_alloc [OF j4] vdet_alloc_new [OF j4]] v5(2) by simp
      moreover have "begin_process self s6 = r" using r Returns by (simp add: and_then_def)
      ultimately show ?thesis using fin by (simp add: Inv_def)
    next
      case (Switches x y)
      then show ?thesis using push_to_queue_kind by blast
    next
      case (Throws x)
      then show ?thesis using push_to_queue_kind by blast
    next
      case Aborts
      then show ?thesis using r assms(3) by (simp add: and_then_def)
    qed
  qed
qed

lemma next_state_Some:
  "next_state r = Some s' \<Longrightarrow> r = Returns s' \<or> (\<exists>w. r = Switches w s') \<or> r = Throws s'"
  by (cases r) auto

lemma sweep_Inv:
  assumes "Inv s" and "clear_finished_threads prev s = r"
    and "r = Returns s' \<or> r = Switches w s' \<or> r = Throws s'"
  shows "Inv s'"
proof -
  have "r = Returns s \<or> r = Aborts"
    using clear_finished_loop_outcome [of prev "finished_threads s" s] assms(2)
    by (auto simp: clear_finished_threads_def)
  then show ?thesis using assms(1,3) by auto
qed

lemma get_next_thread_resumed_Inv:
  assumes "Inv s" and "get_next_thread_resumed saved_at prev s = r"
    and "r = Returns s' \<or> r = Switches w s' \<or> r = Throws s'"
  shows "Inv s'"
proof (cases "saved_at = Swap_get_next_thread")
  case True
  then show ?thesis using sweep_Inv [OF assms(1) _ assms(3)] assms(2)
    by (simp add: get_next_thread_resumed_def)
next
  case False
  then show ?thesis using assms by (auto simp: get_next_thread_resumed_def)
qed

lemma wait_resumed_Inv:
  assumes "Inv s" and "runs_user_thread self s"
    and "wait_resumed saved_at prev self m s = r"
    and "r = Returns s' \<or> r = Switches w s' \<or> r = Throws s'"
  shows "Inv s'"
proof -
  have g: "get_next_thread_resumed saved_at prev s = Returns s
           \<or> get_next_thread_resumed saved_at prev s = Aborts"
    using clear_finished_loop_outcome [of prev "finished_threads s" s]
    by (auto simp: get_next_thread_resumed_def clear_finished_threads_def)
  then have "r = Aborts \<or> r = internal_lock self m s"
    using assms(3) by (auto simp: wait_resumed_def and_then_def)
  then show ?thesis
    using internal_lock_Inv [OF assms(1,2) _ assms(4)] assms(4) by auto
qed

lemma by_next_state:
  assumes "next_state r = Some s'"
    and "\<And>w. r = Returns s' \<or> r = Switches w s' \<or> r = Throws s' \<Longrightarrow> P"
  shows P
  using assms next_state_Some by blast

lemma run_Inv:
  assumes "Inv s" and "runs_user_thread self s" and "next_state (run self c s) = Some s'"
  shows "Inv s'"
proof (cases c)
  case (Create func)
  then have "next_state (thread_ctor self func s) = Some s'" using assms(3) by simp
  then have "thread_ctor self func s = Returns s'"
    using thread_ctor_kind [of self func s] by (cases "thread_ctor self func s") auto
  then show ?thesis by (rule thread_ctor_Inv [OF assms(1)])
next
  case Yield
  then have "next_state (yield self s) = Some s'" using assms(3) by simp
  then show ?thesis by (rule by_next_state) (rule yield_Inv [OF assms(1,2) refl])
next
  case (Join h)
  then have "next_state (join self h s) = Some s'" using assms(3) by simp
  then show ?thesis by (rule by_next_state) (rule join_Inv [OF assms(1,2) refl])
next
  case (Lock m)
  then have "next_state (internal_lock self m s) = Some s'" using assms(3) by (simp add: lock_def)
  then show ?thesis by (rule by_next_state) (rule internal_lock_Inv [OF assms(1,2) refl])
next
  case (Unlock m)
  then have "next_state (internal_unlock self m s) = Some s'"
    using assms(3) by (simp add: unlock_def)
  then show ?thesis by (rule by_next_state) (rule internal_unlock_Inv [OF assms(1) refl])
next
  case (Wait cv m)
  then have "next_state (wait self cv m s) = Some s'" using assms(3) by simp
  then show ?thesis by (rule by_next_state) (rule wait_Inv [OF assms(1,2) refl])
next
  case (Signal cv)
  then have "next_state (signal self cv s) = Some s'" using assms(3) by simp
  then show ?thesis by (rule by_next_state) (rule signal_Inv [OF assms(1) refl])
next
  case (Broadcast cv)
  then have "next_state (broadcast self cv s) = Some s'" using assms(3) by simp
  then show ?thesis by (rule by_next_state) (rule broadcast_Inv [OF assms(1) refl])
next
  case End_of_body
  then have "next_state (thread_execution self s) = Some s'" using assms(3) by simp
  then show ?thesis by (rule by_next_state) (rule thread_execution_Inv [OF assms(1,2) refl])
next
  case (Yield_resumed prev)
  then have "next_state (clear_finished_threads prev s) = Some s'"
    using assms(3) by (simp add: yield_resumed_def)
  then show ?thesis by (rule by_next_state) (rule sweep_Inv [OF assms(1) refl])
next
  case (Get_next_thread_resumed saved_at prev)
  then have "next_state (get_next_thread_resumed saved_at prev s) = Some s'"
    using assms(3) by simp
  then show ?thesis by (rule by_next_state) (rule get_next_thread_resumed_Inv [OF assms(1) refl])
next
  case (Wait_resumed saved_at prev m)
  then have "next_state (wait_resumed saved_at prev self m s) = Some s'"
    using assms(3) by simp
  then show ?thesis by (rule by_next_state) (rule wait_resumed_Inv [OF assms(1,2) refl])
qed

lemma step_Inv:
  assumes "Inv s" and "step s s'"
  shows "Inv s'"
  using assms(2)
proof cases
  case (cpu_start self func)
  then show ?thesis by (rule by_next_state) (rule cpu_ctor_Inv [OF assms(1) refl])
next
  case (library_call self c)
  then show ?thesis by (rule run_Inv [OF assms(1)])
next
  case (ipi self)
  then show ?thesis by (rule by_next_state) (rule ipi_handler_Inv [OF assms(1) refl])
next
  case (timer self)
  then show ?thesis by (rule by_next_state) (rule timer_interrupt_handler_Inv [OF assms(1) refl])
next
  case (idle self)
  then show ?thesis using suspend_helper_Inv [OF assms(1)] by simp
qed

lemma Inv_boot_state: "Inv boot_state"
proof -
  have w: "wl (view_of boot_state) p = []" for p
    by (cases p) (simp_all add: view_of_def boot_state_def mutex_ctor_def)
  have c: "cur (view_of boot_state) d = None" "idl (view_of boot_state) d = None" for d
    by (simp_all add: view_of_def boot_state_def)
  have "vlists_ok (view_of boot_state)"
    by (rule vlI) (simp_all add: w c)
  then show ?thesis
    by (simp add: Inv_def vJ_def vcur_ok_def c)
qed

lemma reachable_Inv: "reachable s \<Longrightarrow> Inv s"
  by (induction rule: reachable.induct) (auto intro: Inv_boot_state step_Inv)

lemma Inv_I2:
  assumes "Inv s"
  shows "I2 s"
proof -
  have ok: "vlists_ok (view_of s)" using assms by (simp add: Inv_def vJ_def)
  have a: "status (tcbs s t) = req p" if "t \<in> set (wl (view_of s) p)" for t p
    using vl_status [OF ok that] by (simp add: view_of_def)
  have 1: "status (tcbs s t) = READY" if "t \<in> set (ready_threads s)" for t
    using a [of t Ready] that by (simp add: view_of_def)
  have 2: "status (tcbs s t) = BLOCKED" if "t \<in> set (waiting_threads (mutexes s m))" for t m
    using a [of t "On_mutex m"] that by (simp add: view_of_def)
  have 3: "status (tcbs s t) = BLOCKED" if "t \<in> set (cv_waiting_threads (cvs s c))" for t c
    using a [of t "On_cv c"] that by (simp add: view_of_def)
  have 4: "status (tcbs s t) = BLOCKED" if "t \<in> set (join_q (tcbs s u))" for t u
    using a [of t "On_join u"] that by (simp add: view_of_def)
  have 5: "status (tcbs s t) = FINISHED" if "t \<in> set (finished_threads s)" for t
    using a [of t Finished] that by (simp add: view_of_def)
  show ?thesis unfolding I2_def using 1 2 3 4 5 by blast
qed

text \<open>
  Claim C8 (invariant I2). In every state reached from the boot state by steps of the library
  (a CPU starting, the calls create, yield, join, lock, unlock, wait, signal, broadcast and
  end-of-body with their resumed parts, the interrupt handlers and the idle loop), every TCB on
  the ready queue has status \<open>READY\<close>, every TCB on a mutex, cv or join waitlist has status
  \<open>BLOCKED\<close>, and every TCB on the finished list has status \<open>FINISHED\<close>.
\<close>

theorem reachable_I2: "reachable s \<Longrightarrow> I2 s"
  by (rule Inv_I2) (rule reachable_Inv)

theorem reachable_I2_witness: "reachable joined_state \<and> I2 joined_state"
proof -
  have "step boot_state running_state"
    using step.cpu_start [of 0 "Some 0" boot_state running_state] running_state_reached by simp
  then have r1: "reachable running_state"
    using reachable.boot reachable.step by blast
  obtain s1 where s1: "thread_ctor 0 (Some 0) running_state = Returns s1"
      "runs_user_thread 0 s1"
      "join 0 (Some 2) s1 = Switches Swap_get_next_thread joined_state"
    using joined_state_reached by blast
  have u: "runs_user_thread 0 running_state"
    by (simp add: runs_user_thread_def concrete_defs)
  have "step running_state s1"
    using step.library_call [OF u, of "Create (Some 0)" s1] s1(1) by simp
  then have r2: "reachable s1" using r1 reachable.step by blast
  have "step s1 joined_state"
    using step.library_call [OF s1(2), of "Join (Some 2)" joined_state] s1(3) by simp
  then have "reachable joined_state" using r2 reachable.step by blast
  then show ?thesis using reachable_I2 by blast
qed

text \<open>The states at which the code departs from the specification are reachable.\<close>

lemma running_state_reachable: "reachable running_state"
proof -
  have "step boot_state running_state"
    using step.cpu_start [of 0 "Some 0" boot_state running_state] running_state_reached by simp
  then show ?thesis using reachable.boot reachable.step by blast
qed

lemma released_state_reachable: "reachable released_state"
proof -
  have u: "runs_user_thread 0 running_state" "runs_user_thread 0 held_state"
    by (simp_all add: runs_user_thread_def concrete_defs)
  have "step running_state held_state"
    using step.library_call [OF u(1), of "Lock 0" held_state] held_state_reached by simp
  then have "reachable held_state"
    using running_state_reachable reachable.step by blast
  moreover have "step held_state released_state"
    using step.library_call [OF u(2), of "Unlock 0" released_state] released_state_reached by simp
  ultimately show ?thesis using reachable.step by blast
qed

lemma swept_state_reachable: "reachable swept_state"
proof -
  obtain s1 s2 where c: "thread_ctor 0 (Some 0) running_state = Returns s1"
      "runs_user_thread 0 s1" "yield 0 s1 = Switches Swap_yield s2"
      "runs_user_thread 0 s2" "thread_execution 0 s2 = Switches Set_context swept_state"
    using swept_state_reached by blast
  have u: "runs_user_thread 0 running_state"
    by (simp add: runs_user_thread_def concrete_defs)
  have "step running_state s1"
    using step.library_call [OF u, of "Create (Some 0)" s1] c(1) by simp
  then have "reachable s1" using running_state_reachable reachable.step by blast
  moreover have "step s1 s2"
    using step.library_call [OF c(2), of Yield s2] c(3) by simp
  ultimately have "reachable s2" using reachable.step by blast
  moreover have "step s2 swept_state"
    using step.library_call [OF c(4), of End_of_body swept_state] c(5) by simp
  ultimately show ?thesis using reachable.step by blast
qed

subsection \<open>The hypotheses hold in the running system\<close>

text \<open>
  The theorems on \<^verbatim>\<open>push_to_queue\<close>, \<^verbatim>\<open>unlock\<close> and the end of a thread's body assume that
  the assertions of the library pass. In the running system they do: whenever a thread makes
  a call, the idle-CPU queue holds suspended CPUs other than the caller's, and the queues hold
  threads of the status they ask.
\<close>

lemma sleeping_cpus_set [simp]:
  "sleeping_cpus (set_status t x s) = sleeping_cpus s"
  "sleeping_cpus (set_curr_thread c p s) = sleeping_cpus s"
  "cpus (set_curr_thread c p s) d = (if d = c then (cpus s c)\<lparr>curr_thread := p\<rparr> else cpus s d)"
  by (simp_all add: set_status_def set_curr_thread_def)

lemma frames_refl: "frames self s s"
  unfolding frames_def by (auto intro: exI [of _ 0])

lemma frames_trans: "frames self s s1 \<Longrightarrow> frames self s1 s2 \<Longrightarrow> frames self s s2"
  unfolding frames_def by (auto simp: drop_drop)

lemma frames_local:
  "sleeping_cpus s' = sleeping_cpus s \<Longrightarrow> (\<And>d. d \<noteq> self \<Longrightarrow> cpus s' d = cpus s d) \<Longrightarrow>
   suspended_thread (cpus s' self) = suspended_thread (cpus s self) \<Longrightarrow> frames self s s'"
  unfolding frames_def by (auto intro: exI [of _ 0])

lemma keeps_simps [simp]:
  "keeps self s (Returns s') = frames self s s'"
  "keeps self s (Switches w s') = frames self s s'"
  "keeps self s (Throws s') = frames self s s'"
  "keeps self s Aborts"
  by (simp_all add: keeps_def)

lemma keeps_from: "frames self s s1 \<Longrightarrow> keeps self s1 r \<Longrightarrow> keeps self s r"
  unfolding keeps_def using frames_trans by blast

lemma keeps_and_then:
  "keeps self s r \<Longrightarrow> (\<And>s1. r = Returns s1 \<Longrightarrow> keeps self s1 (f s1)) \<Longrightarrow>
   keeps self s (and_then r f)"
  by (cases r) (auto simp: and_then_def intro: keeps_from)

lemma keeps_fetch_cpu: "keeps self s (fetch_cpu self s)"
proof (cases "sleeping_cpus s")
  case Nil
  then show ?thesis by (simp add: fetch_cpu_def frames_refl)
next
  case (Cons d ds)
  have "frames self s (interrupt_send d (s\<lparr>sleeping_cpus := ds\<rparr>))"
    unfolding frames_def using Cons by (auto simp: interrupt_send_def intro: exI [of _ 1])
  then show ?thesis using Cons by (simp add: fetch_cpu_def Let_def)
qed

lemma keeps_push_to_queue: "keeps self s (push_to_queue self p s)"
proof (cases p)
  case None
  then show ?thesis by (simp add: push_to_queue_def)
next
  case (Some t)
  let ?s1 = "(set_status t READY s)\<lparr>ready_threads := ready_threads s @ [t]\<rparr>"
  have "frames self s ?s1" by (rule frames_local) simp_all
  then have "keeps self s (fetch_cpu self ?s1)" using keeps_fetch_cpu keeps_from by blast
  then show ?thesis using Some by (simp add: push_to_queue_def)
qed

lemma keeps_suspend_cpu: "keeps self s (suspend_cpu self s)"
  by (auto simp: suspend_cpu_def Let_def split: option.splits intro!: frames_local)

lemma keeps_dispatch:
  "frames self s (set_status n RUNNING ((set_curr_thread self (Some n) s)\<lparr>ready_threads := rest\<rparr>))"
  by (rule frames_local) simp_all

lemma keeps_get_next_thread: "keeps self s (get_next_thread self s)"
  by (auto simp: get_next_thread_def Let_def keeps_suspend_cpu keeps_dispatch
           split: option.splits)

lemma keeps_ipi_handler: "keeps self s (ipi_handler self s)"
  by (auto simp: ipi_handler_def Let_def keeps_dispatch frames_refl)

lemma keeps_begin_process: "keeps self s (begin_process self s)"
  by (auto simp: begin_process_def Let_def keeps_suspend_cpu keeps_dispatch)

lemma keeps_internal_lock: "keeps self s (internal_lock self m s)"
proof (cases "curr_thread (cpus s self)")
  case None
  then show ?thesis by (simp add: internal_lock_def)
next
  case (Some t)
  let ?s2 = "(set_status t BLOCKED s)\<lparr>mutexes := (mutexes s)(m := (mutexes s m)
                          \<lparr>waiting_threads := waiting_threads (mutexes s m) @ [t]\<rparr>)\<rparr>"
  have "frames self s ?s2" by (rule frames_local) simp_all
  then have "keeps self s (get_next_thread self ?s2)"
    using keeps_get_next_thread keeps_from by blast
  moreover have "frames self s (s\<lparr>mutexes := (mutexes s)(m := (mutexes s m)
                 \<lparr>thread_holding_lock := sint (tcb_id (tcbs s t)), free := False\<rparr>)\<rparr>)"
    by (rule frames_local) simp_all
  ultimately show ?thesis using Some by (simp add: internal_lock_def Let_def)
qed

lemma keeps_internal_unlock: "keeps self s (internal_unlock self m s)"
proof (cases "curr_thread (cpus s self)")
  case None
  then show ?thesis by (simp add: internal_unlock_def)
next
  case (Some t)
  have 1: "frames self s (s\<lparr>mutexes := (mutexes s)(m := (mutexes s m)\<lparr>free := True\<rparr>)\<rparr>)"
    by (rule frames_local) simp_all
  have 2: "keeps self s (push_to_queue self (Some w)
             (s\<lparr>mutexes := (mutexes s)(m := (mutexes s m)\<lparr>waiting_threads := ws,
                     thread_holding_lock := sint (tcb_id (tcbs s w)), free := False\<rparr>)\<rparr>))" for w ws
    by (rule keeps_from [OF _ keeps_push_to_queue]) (rule frames_local, simp_all)
  show ?thesis
    using Some 1 2 by (auto simp: internal_unlock_def Let_def frames_refl split: list.splits)
qed

lemma internal_unlock_cpus:
  "internal_unlock self m s = Returns s1 \<Longrightarrow> cpus s1 = cpus s"
  using internal_unlock_view [OF refl, of self m s] by auto

lemma keeps_wait: "keeps self s (wait self c mtx s)"
proof (cases "curr_thread (cpus s self)")
  case None
  then show ?thesis by (simp add: wait_def)
next
  case (Some t)
  have k: "keeps self s1 (case curr_thread (cpus s1 self) of None \<Rightarrow> Aborts
            | Some t1 \<Rightarrow>
                (let s2 = set_status t1 BLOCKED s1;
                     s3 = s2\<lparr>cvs := (cvs s2)(c := (cvs s2 c)
                              \<lparr>cv_waiting_threads := cv_waiting_threads (cvs s2 c) @ [t1]\<rparr>)\<rparr>
                 in get_next_thread self s3))" for s1
  proof (cases "curr_thread (cpus s1 self)")
    case None
    then show ?thesis by simp
  next
    case (Some t1)
    let ?s3 = "(set_status t1 BLOCKED s1)\<lparr>cvs := (cvs s1)(c := (cvs s1 c)
                  \<lparr>cv_waiting_threads := cv_waiting_threads (cvs s1 c) @ [t1]\<rparr>)\<rparr>"
    have "frames self s1 ?s3" by (rule frames_local) simp_all
    then have "keeps self s1 (get_next_thread self ?s3)"
      using keeps_get_next_thread keeps_from by blast
    then show ?thesis using Some by (simp add: Let_def)
  qed
  have "keeps self s (and_then (internal_unlock self mtx s) (\<lambda>s1.
          case curr_thread (cpus s1 self) of None \<Rightarrow> Aborts
            | Some t1 \<Rightarrow>
                (let s2 = set_status t1 BLOCKED s1;
                     s3 = s2\<lparr>cvs := (cvs s2)(c := (cvs s2 c)
                              \<lparr>cv_waiting_threads := cv_waiting_threads (cvs s2 c) @ [t1]\<rparr>)\<rparr>
                 in get_next_thread self s3)))"
    by (rule keeps_and_then [OF keeps_internal_unlock]) (rule k)
  then show ?thesis
    using Some by (simp add: wait_def frames_refl)
qed

lemma keeps_signal: "keeps self s (signal self c s)"
proof (cases "cv_waiting_threads (cvs s c)")
  case Nil
  then show ?thesis by (simp add: signal_def frames_refl)
next
  case (Cons h rest)
  have "keeps self s (push_to_queue self (Some h)
            (s\<lparr>cvs := (cvs s)(c := (cvs s c)\<lparr>cv_waiting_threads := rest\<rparr>)\<rparr>))"
    by (rule keeps_from [OF _ keeps_push_to_queue]) (rule frames_local, simp_all)
  then show ?thesis using Cons by (simp add: signal_def)
qed

lemma keeps_broadcast: "keeps self s (broadcast self c s)"
proof (induction self c s rule: broadcast.induct)
  case (1 self c s)
  show ?case
  proof (cases "cv_waiting_threads (cvs s c)")
    case Nil
    then show ?thesis by (subst broadcast.simps) (simp add: frames_refl)
  next
    case (Cons h rest)
    let ?s1 = "s\<lparr>cvs := (cvs s)(c := (cvs s c)\<lparr>cv_waiting_threads := rest\<rparr>)\<rparr>"
    have p: "keeps self s (push_to_queue self (Some h) ?s1)"
      by (rule keeps_from [OF _ keeps_push_to_queue]) (rule frames_local, simp_all)
    show ?thesis
    proof (cases "push_to_queue self (Some h) ?s1")
      case (Returns s2)
      have "keeps self s2 (broadcast self c s2)" using "1.IH" [OF Cons Returns] .
      moreover have "frames self s s2" using p Returns by simp
      moreover have "broadcast self c s = broadcast self c s2"
        using Cons Returns by (subst broadcast.simps) simp
      ultimately show ?thesis using keeps_from by simp
    next
      case (Switches x y)
      then show ?thesis using push_to_queue_kind by blast
    next
      case (Throws x)
      then show ?thesis using push_to_queue_kind by blast
    next
      case Aborts
      then have "broadcast self c s = Aborts" using Cons by (subst broadcast.simps) simp
      then show ?thesis by simp
    qed
  qed
qed

lemma frames_TCB_ctor: "TCB_ctor s = (a, s1) \<Longrightarrow> frames self s s1"
  by (rule frames_local) (auto simp: TCB_ctor_def)

lemma keeps_thread_ctor: "keeps self s (thread_ctor self func s)"
proof -
  obtain a s1 where c: "TCB_ctor s = (a, s1)" by (cases "TCB_ctor s")
  have "keeps self s (push_to_queue self (Some a) s1)"
    using keeps_from [OF frames_TCB_ctor [OF c] keeps_push_to_queue] .
  then show ?thesis using c by (simp add: thread_ctor_def)
qed

lemma keeps_yield: "keeps self s (yield self s)"
proof (cases "ready_threads s")
  case Nil
  then show ?thesis by (simp add: yield_def frames_refl)
next
  case (Cons n rest)
  let ?s2 = "(set_curr_thread self (Some n) s)\<lparr>ready_threads := rest\<rparr>"
  have f2: "frames self s ?s2" by (rule frames_local) simp_all
  have k: "keeps self s3 (case curr_thread (cpus s3 self) of None \<Rightarrow> Aborts
              | Some cu \<Rightarrow> Switches Swap_yield (set_status cu RUNNING s3))" for s3
    by (cases "curr_thread (cpus s3 self)") (auto intro!: frames_local)
  have "keeps self ?s2 (and_then (push_to_queue self (curr_thread (cpus s self)) ?s2) (\<lambda>s3.
              case curr_thread (cpus s3 self) of None \<Rightarrow> Aborts
              | Some cu \<Rightarrow> Switches Swap_yield (set_status cu RUNNING s3)))"
    by (rule keeps_and_then [OF keeps_push_to_queue]) (rule k)
  then show ?thesis
    using Cons keeps_from [OF f2] by (simp add: yield_def Let_def)
qed

lemma keeps_join: "keeps self s (join self h s)"
proof (cases h)
  case None
  then show ?thesis by (simp add: join_def frames_refl)
next
  case (Some target)
  show ?thesis
  proof (cases "curr_thread (cpus s self)")
    case None
    then show ?thesis using Some by (simp add: join_def frames_refl)
  next
    case t: (Some t)
    let ?s1 = "set_status t BLOCKED s"
    let ?s2 = "?s1\<lparr>tcbs := (tcbs ?s1)(target := (tcbs ?s1 target)
                             \<lparr>join_q := join_q (tcbs ?s1 target) @ [t]\<rparr>)\<rparr>"
    have "frames self s ?s2" by (rule frames_local) simp_all
    then have "keeps self s (get_next_thread self ?s2)"
      using keeps_get_next_thread keeps_from by blast
    then show ?thesis using Some t by (simp add: join_def Let_def frames_refl)
  qed
qed

lemma keeps_drain_join_q: "keeps self s (drain_join_q self s)"
proof (induction self s rule: drain_join_q.induct)
  case (1 self s)
  show ?case
  proof (cases "curr_thread (cpus s self)")
    case None
    then show ?thesis by (subst drain_join_q.simps) simp
  next
    case (Some t)
    show ?thesis
    proof (cases "join_q (tcbs s t)")
      case Nil
      then show ?thesis using Some by (subst drain_join_q.simps) (simp add: frames_refl)
    next
      case (Cons h rest)
      let ?s1 = "s\<lparr>tcbs := (tcbs s)(t := (tcbs s t)\<lparr>join_q := rest\<rparr>)\<rparr>"
      have p: "keeps self s (push_to_queue self (Some h) ?s1)"
        by (rule keeps_from [OF _ keeps_push_to_queue]) (rule frames_local, simp_all)
      show ?thesis
      proof (cases "push_to_queue self (Some h) ?s1")
        case (Returns s2)
        have "keeps self s2 (drain_join_q self s2)" using "1.IH" [OF Some Cons Returns] .
        moreover have "frames self s s2" using p Returns by simp
        moreover have "drain_join_q self s = drain_join_q self s2"
          using Some Cons Returns by (subst drain_join_q.simps) simp
        ultimately show ?thesis using keeps_from by simp
      next
        case (Switches x y)
        then show ?thesis using push_to_queue_kind by blast
      next
        case (Throws x)
        then show ?thesis using push_to_queue_kind by blast
      next
        case Aborts
        then have "drain_join_q self s = Aborts"
          using Some Cons by (subst drain_join_q.simps) simp
        then show ?thesis by simp
      qed
    qed
  qed
qed

lemma keeps_thread_execution: "keeps self s (thread_execution self s)"
proof -
  have k: "keeps self s1 (case curr_thread (cpus s1 self) of
         None \<Rightarrow> Aborts
       | Some t \<Rightarrow>
           (let s2 = set_status t FINISHED s1;
                s3 = s2\<lparr>finished_threads := finished_threads s2 @ [t]\<rparr>
            in if ready_threads s3 \<noteq> [] then
                 (let next = hd (ready_threads s3);
                      s4 = set_curr_thread self (Some next) s3;
                      s5 = s4\<lparr>ready_threads := tl (ready_threads s4)\<rparr>
                  in Switches Set_context (set_status next RUNNING s5))
               else suspend_cpu self s3))" for s1
  proof (cases "curr_thread (cpus s1 self)")
    case None
    then show ?thesis by simp
  next
    case (Some t)
    let ?s3 = "(set_status t FINISHED s1)\<lparr>finished_threads := finished_threads s1 @ [t]\<rparr>"
    have f: "frames self s1 ?s3" by (rule frames_local) simp_all
    have "keeps self s1 (suspend_cpu self ?s3)"
      using keeps_from [OF f keeps_suspend_cpu] .
    moreover have "frames self s1 (set_status n RUNNING
                     ((set_curr_thread self (Some n) ?s3)\<lparr>ready_threads := rest\<rparr>))" for n rest
      by (rule frames_local) simp_all
    ultimately show ?thesis using Some by (simp add: Let_def)
  qed
  show ?thesis
    unfolding thread_execution_def
    by (rule keeps_and_then [OF keeps_drain_join_q]) (rule k)
qed

lemma keeps_timer: "keeps self s (timer_interrupt_handler self s)"
  by (simp add: timer_interrupt_handler_def frames_refl keeps_yield)

lemma keeps_sweep: "keeps self s (clear_finished_threads prev s)"
  using clear_finished_loop_outcome [of prev "finished_threads s" s]
  by (auto simp: clear_finished_threads_def frames_refl)

lemma keeps_get_next_thread_resumed: "keeps self s (get_next_thread_resumed w prev s)"
  by (simp add: get_next_thread_resumed_def keeps_sweep frames_refl)

lemma keeps_wait_resumed: "keeps self s (wait_resumed w prev self m s)"
  unfolding wait_resumed_def
  by (rule keeps_and_then [OF keeps_get_next_thread_resumed]) (rule keeps_internal_lock)

lemma keeps_run: "keeps self s (run self c s)"
  by (cases c)
     (simp_all add: keeps_thread_ctor keeps_yield keeps_join keeps_internal_lock lock_def
        unlock_def keeps_internal_unlock keeps_wait keeps_signal keeps_broadcast
        keeps_thread_execution yield_resumed_def keeps_sweep keeps_get_next_thread_resumed
        keeps_wait_resumed)

lemma keeps_cpu_ctor:
  "keeps self s (cpu_ctor self func s)"
proof -
  let ?s2 = "s\<lparr>booted := True, num_cpus := num_cpus s + 1\<rparr>"
  obtain idle s3 where c3: "TCB_ctor ?s2 = (idle, s3)" by (cases "TCB_ctor ?s2")
  let ?s4 = "s3\<lparr>cpus := (cpus s3)(self := (cpus s3 self)\<lparr>suspended_thread := Some idle\<rparr>)\<rparr>"
  have "frames self s ?s2" by (rule frames_local) simp_all
  then have f3: "frames self s s3" using frames_TCB_ctor [OF c3] frames_trans by blast
  have "frames self s3 ?s4" unfolding frames_def by (auto intro: exI [of _ 0])
  then have f4: "frames self s ?s4" using f3 frames_trans by blast
  show ?thesis
  proof (cases func)
    case None
    then show ?thesis
      using c3 keeps_from [OF f4 keeps_begin_process] by (simp add: cpu_ctor_def Let_def)
  next
    case (Some f)
    obtain first s5 where c5: "TCB_ctor ?s4 = (first, s5)" by (cases "TCB_ctor ?s4")
    have f5: "frames self s s5" using f4 frames_TCB_ctor [OF c5] frames_trans by blast
    have "keeps self s5 (and_then (push_to_queue self (Some first) s5) (begin_process self))"
      by (rule keeps_and_then [OF keeps_push_to_queue]) (rule keeps_begin_process)
    then show ?thesis
      using c3 c5 Some keeps_from [OF f5] by (simp add: cpu_ctor_def Let_def)
  qed
qed

lemma sched_step_step: "sched_step s s' \<Longrightarrow> step s s'"
  by (induction rule: sched_step.induct) (auto intro: step.intros)

lemma running_reachable: "running s \<Longrightarrow> reachable s"
  by (induction rule: running.induct) (auto intro: reachable.intros sched_step_step)

lemma Ctl_frames:
  assumes c: "Ctl s" and f: "frames self s s'" and n: "self \<notin> set (sleeping_cpus s)"
    and i: "suspended_thread (cpus s' self) \<noteq> None"
  shows "Ctl s'"
proof -
  from f obtain k where k: "sleeping_cpus s' = drop k (sleeping_cpus s)"
    and o: "\<And>d. d \<noteq> self \<Longrightarrow> cpus s' d = cpus s d"
    by (auto simp: frames_def)
  have 1: "distinct (sleeping_cpus s')" using c k by (simp add: Ctl_def)
  have 2: "curr_thread (cpus s' d) = suspended_thread (cpus s' d)
           \<and> suspended_thread (cpus s' d) \<noteq> None" if "d \<in> set (sleeping_cpus s')" for d
  proof -
    have m: "d \<in> set (sleeping_cpus s)" using that k by (auto dest: in_set_dropD)
    then have "d \<noteq> self" using n by auto
    then show ?thesis using o [of d] c m by (simp add: Ctl_def)
  qed
  have 3: "suspended_thread (cpus s' e) \<noteq> None" if "curr_thread (cpus s' e) \<noteq> None" for e
  proof (cases "e = self")
    case True
    then show ?thesis using i by simp
  next
    case False
    then show ?thesis using o [of e] c that by (simp add: Ctl_def)
  qed
  show ?thesis unfolding Ctl_def using 1 2 3 by blast
qed

lemma Ctl_user:
  assumes "Ctl s" and "runs_user_thread self s"
  shows "self \<notin> set (sleeping_cpus s)" "suspended_thread (cpus s self) \<noteq> None"
  using assms by (auto simp: Ctl_def runs_user_thread_def split: option.splits)

lemma frames_susp:
  "frames self s s' \<Longrightarrow> suspended_thread (cpus s self) \<noteq> None \<Longrightarrow>
   suspended_thread (cpus s' self) \<noteq> None"
  by (simp add: frames_def)

lemma keepsD: "keeps self s r \<Longrightarrow> next_state r = Some s' \<Longrightarrow> frames self s s'"
  by (simp add: keeps_def)

lemma cpu_ctor_susp:
  assumes "next_state (cpu_ctor self func s) = Some s'"
  shows "suspended_thread (cpus s' self) \<noteq> None"
proof -
  let ?s2 = "s\<lparr>booted := True, num_cpus := num_cpus s + 1\<rparr>"
  obtain idle s3 where c3: "TCB_ctor ?s2 = (idle, s3)" by (cases "TCB_ctor ?s2")
  let ?s4 = "s3\<lparr>cpus := (cpus s3)(self := (cpus s3 self)\<lparr>suspended_thread := Some idle\<rparr>)\<rparr>"
  have i4: "suspended_thread (cpus ?s4 self) \<noteq> None" by simp
  show ?thesis
  proof (cases func)
    case None
    then have "next_state (begin_process self ?s4) = Some s'"
      using assms c3 by (simp add: cpu_ctor_def Let_def)
    then show ?thesis using frames_susp [OF keepsD [OF keeps_begin_process] i4] by blast
  next
    case (Some f)
    obtain first s5 where c5: "TCB_ctor ?s4 = (first, s5)" by (cases "TCB_ctor ?s4")
    have i5: "suspended_thread (cpus s5 self) \<noteq> None"
      using frames_susp [OF frames_TCB_ctor [OF c5] i4] .
    have k: "keeps self s5 (and_then (push_to_queue self (Some first) s5) (begin_process self))"
      by (rule keeps_and_then [OF keeps_push_to_queue]) (rule keeps_begin_process)
    have "next_state (and_then (push_to_queue self (Some first) s5) (begin_process self)) = Some s'"
      using assms c3 c5 Some by (simp add: cpu_ctor_def Let_def)
    then show ?thesis using frames_susp [OF keepsD [OF k] i5] by blast
  qed
qed

lemma sched_step_Ctl:
  assumes "Ctl s" and "sched_step s s'"
  shows "Ctl s'"
  using assms(2)
proof cases
  case (cpu_start self func)
  have "self \<notin> set (sleeping_cpus s)"
    using assms(1) cpu_start(2) by (auto simp: Ctl_def)
  then show ?thesis
    using Ctl_frames [OF assms(1) keepsD [OF keeps_cpu_ctor cpu_start(3)]]
          cpu_ctor_susp [OF cpu_start(3)] by blast
next
  case (library_call self c)
  note u = Ctl_user [OF assms(1) library_call(1)]
  have f: "frames self s s'" using keepsD [OF keeps_run library_call(2)] .
  show ?thesis using Ctl_frames [OF assms(1) f u(1) frames_susp [OF f u(2)]] .
next
  case (ipi self)
  have f: "frames self s s'" using keepsD [OF keeps_ipi_handler ipi(4)] .
  show ?thesis using Ctl_frames [OF assms(1) f ipi(3) frames_susp [OF f ipi(2)]] .
next
  case (timer self)
  show ?thesis
  proof (cases "curr_thread (cpus s self) = suspended_thread (cpus s self)")
    case True
    then show ?thesis using timer assms(1) by (simp add: timer_interrupt_handler_def)
  next
    case False
    then have y: "next_state (yield self s) = Some s'"
      using timer by (simp add: timer_interrupt_handler_def)
    show ?thesis
    proof (cases "curr_thread (cpus s self)")
      case None
      then have "yield self s = Aborts" by (cases "booted s") (simp_all add: yield_def)
      then show ?thesis using y by simp
    next
      case (Some t)
      then have r: "runs_user_thread self s" using False by (simp add: runs_user_thread_def)
      note u = Ctl_user [OF assms(1) r]
      have f: "frames self s s'" using keepsD [OF keeps_yield y] .
      show ?thesis using Ctl_frames [OF assms(1) f u(1) frames_susp [OF f u(2)]] .
    qed
  qed
next
  case (idle self)
  then show ?thesis using assms(1) by (auto simp: Ctl_def suspend_helper_def)
qed

lemma Ctl_boot_state: "Ctl boot_state"
  by (simp add: Ctl_def boot_state_def)

lemma running_Ctl: "running s \<Longrightarrow> Ctl s"
  by (induction rule: running.induct) (auto intro: Ctl_boot_state sched_step_Ctl)

lemma running_sleepers_ok:
  assumes "running s" and "runs_user_thread self s"
  shows "sleepers_ok self s"
proof -
  have c: "Ctl s" using running_Ctl [OF assms(1)] .
  have ok: "vlists_ok (view_of s)"
    using reachable_Inv [OF running_reachable [OF assms(1)]] by (simp add: Inv_def vJ_def)
  note u = Ctl_user [OF c assms(2)]
  have "d \<noteq> self \<and> curr_thread (cpus s d) = suspended_thread (cpus s d)
        \<and> curr_thread (cpus s d) \<noteq> suspended_thread (cpus s self)"
    if d: "d \<in> set (sleeping_cpus s)" for d
  proof -
    have 1: "d \<noteq> self" using d u(1) by auto
    have 2: "curr_thread (cpus s d) = suspended_thread (cpus s d)"
      "suspended_thread (cpus s d) \<noteq> None"
      using c d by (auto simp: Ctl_def)
    have 3: "suspended_thread (cpus s d) \<noteq> suspended_thread (cpus s self)"
    proof
      assume e: "suspended_thread (cpus s d) = suspended_thread (cpus s self)"
      from 2(2) obtain i where i: "suspended_thread (cpus s d) = Some i" by auto
      then have "idl (view_of s) d = Some i" "idl (view_of s) self = Some i"
        using e by (simp_all add: view_of_def)
      then show False using vl_idle_unique [OF ok] 1 by blast
    qed
    show ?thesis using 1 2 3 by simp
  qed
  then show ?thesis unfolding sleepers_ok_def list_all_iff by blast
qed

lemma running_preconditions:
  assumes "running s" and "runs_user_thread self s"
  shows "sleepers_ok self s" and "fetch_cpu_asserts self s"
    and "suspended_thread (cpus s self) \<noteq> None"
    and "curr_thread (cpus s self) = Some t \<Longrightarrow> status (tcbs s t) = RUNNING"
    and "distinct (ready_threads s)"
    and "r \<in> set (ready_threads s) \<Longrightarrow> status (tcbs s r) = READY"
    and "distinct (waiting_threads (mutexes s m))"
    and "w \<in> set (waiting_threads (mutexes s m)) \<Longrightarrow> status (tcbs s w) = BLOCKED"
    and "distinct (join_q (tcbs s u))"
    and "j \<in> set (join_q (tcbs s u)) \<Longrightarrow> status (tcbs s j) = BLOCKED"
proof -
  have i: "Inv s" using reachable_Inv [OF running_reachable [OF assms(1)]] .
  then have ok: "vlists_ok (view_of s)" and co: "vcur_ok {} (view_of s) self"
    by (simp_all add: Inv_def vJ_def)
  show "sleepers_ok self s" using running_sleepers_ok [OF assms] .
  then show "fetch_cpu_asserts self s" by (rule sleepers_ok_fetch)
  show "suspended_thread (cpus s self) \<noteq> None"
    using Ctl_user [OF running_Ctl [OF assms(1)] assms(2)] by simp
  show "status (tcbs s t) = RUNNING" if "curr_thread (cpus s self) = Some t"
    using co that assms(2) by (auto simp: vcur_ok_def view_of_def runs_user_thread_def)
  show "distinct (ready_threads s)"
    using vl_distinct [OF ok, of Ready] by (simp add: view_of_def)
  show "status (tcbs s r) = READY" if "r \<in> set (ready_threads s)"
    using vl_status [OF ok, of r Ready] that by (simp add: view_of_def)
  show "distinct (waiting_threads (mutexes s m))"
    using vl_distinct [OF ok, of "On_mutex m"] by (simp add: view_of_def)
  show "status (tcbs s w) = BLOCKED" if "w \<in> set (waiting_threads (mutexes s m))"
    using vl_status [OF ok, of w "On_mutex m"] that by (simp add: view_of_def)
  show "distinct (join_q (tcbs s u))"
    using vl_distinct [OF ok, of "On_join u"] by (simp add: view_of_def)
  show "status (tcbs s j) = BLOCKED" if "j \<in> set (join_q (tcbs s u))"
    using vl_status [OF ok, of j "On_join u"] that by (simp add: view_of_def)
qed

lemma running_unlock_handoff:
  assumes "running s" and "runs_user_thread self s"
    and "curr_thread (cpus s self) = Some t"
    and "thread_holding_lock (mutexes s m) = sint (tcb_id (tcbs s t))"
    and "waiting_threads (mutexes s m) = w # ws"
  shows "unlock self m s =
     Returns (s\<lparr>mutexes := (mutexes s)(m := (mutexes s m)\<lparr>waiting_threads := ws,
                     thread_holding_lock := sint (tcb_id (tcbs s w)), free := False\<rparr>),
                tcbs := (tcbs s)(w := (tcbs s w)\<lparr>status := READY\<rparr>),
                ready_threads := ready_threads s @ [w],
                sleeping_cpus := drop 1 (sleeping_cpus s),
                ipi_sent := ipi_sent s @ take 1 (sleeping_cpus s)\<rparr>)"
proof -
  have "status (tcbs s w) = BLOCKED"
    using running_preconditions(8) [OF assms(1,2), of w m] assms(5) by simp
  then show ?thesis
    unfolding unlock_def
    using internal_unlock_handoff [OF assms(3,4,5) _ running_preconditions(2) [OF assms(1,2)]]
    by simp
qed

subsection \<open>Direct handoff\<close>

text \<open>
  Every function of the library other than \<^verbatim>\<open>internal_lock\<close> and \<^verbatim>\<open>internal_unlock\<close>
  leaves the mutexes alone, and none changes the id of an allocated TCB.
\<close>

lemma mf_refl: "mutex_frame m s s"
  by (simp add: mutex_frame_def)

lemma mf_trans: "mutex_frame m s s1 \<Longrightarrow> mutex_frame m s1 s2 \<Longrightarrow> mutex_frame m s s2"
  unfolding mutex_frame_def by auto

lemma mf_local:
  "thread_holding_lock (mutexes s' m) = thread_holding_lock (mutexes s m) \<Longrightarrow>
   free (mutexes s' m) = free (mutexes s m) \<Longrightarrow> heap_top s' = heap_top s \<Longrightarrow>
   (\<And>a. tcb_id (tcbs s' a) = tcb_id (tcbs s a)) \<Longrightarrow> mutex_frame m s s'"
  by (simp add: mutex_frame_def)

lemma leaves_simps [simp]:
  "leaves m s (Returns s') = mutex_frame m s s'"
  "leaves m s (Switches w s') = mutex_frame m s s'"
  "leaves m s (Throws s') = mutex_frame m s s'"
  "leaves m s Aborts"
  by (simp_all add: leaves_def)

lemma leaves_from: "mutex_frame m s s1 \<Longrightarrow> leaves m s1 r \<Longrightarrow> leaves m s r"
  unfolding leaves_def using mf_trans by blast

lemma leaves_and_then:
  "leaves m s r \<Longrightarrow> (\<And>s1. r = Returns s1 \<Longrightarrow> leaves m s1 (f s1)) \<Longrightarrow>
   leaves m s (and_then r f)"
  by (cases r) (auto simp: and_then_def intro: leaves_from)

lemma leaves_fetch_cpu: "leaves m s (fetch_cpu self s)"
  by (cases "sleeping_cpus s")
     (auto simp: fetch_cpu_def Let_def interrupt_send_def mf_refl intro!: mf_local)

lemma leaves_push_to_queue: "leaves m s (push_to_queue self p s)"
proof (cases p)
  case None
  then show ?thesis by (simp add: push_to_queue_def)
next
  case (Some t)
  let ?s1 = "(set_status t READY s)\<lparr>ready_threads := ready_threads s @ [t]\<rparr>"
  have "mutex_frame m s ?s1" by (rule mf_local) simp_all
  then have "leaves m s (fetch_cpu self ?s1)" using leaves_fetch_cpu leaves_from by blast
  then show ?thesis using Some by (simp add: push_to_queue_def)
qed

lemma leaves_suspend_cpu: "leaves m s (suspend_cpu self s)"
  by (auto simp: suspend_cpu_def Let_def split: option.splits intro!: mf_local)

lemma leaves_dispatch:
  "mutex_frame m s (set_status n RUNNING ((set_curr_thread self (Some n) s)\<lparr>ready_threads := rest\<rparr>))"
  by (rule mf_local) simp_all

lemma leaves_get_next_thread: "leaves m s (get_next_thread self s)"
  by (auto simp: get_next_thread_def Let_def leaves_suspend_cpu leaves_dispatch
           split: option.splits)

lemma leaves_ipi_handler: "leaves m s (ipi_handler self s)"
  by (auto simp: ipi_handler_def Let_def leaves_dispatch mf_refl)

lemma leaves_begin_process: "leaves m s (begin_process self s)"
  by (auto simp: begin_process_def Let_def leaves_suspend_cpu leaves_dispatch)

lemma leaves_signal: "leaves m s (signal self c s)"
proof (cases "cv_waiting_threads (cvs s c)")
  case Nil
  then show ?thesis by (simp add: signal_def mf_refl)
next
  case (Cons h rest)
  have "leaves m s (push_to_queue self (Some h)
            (s\<lparr>cvs := (cvs s)(c := (cvs s c)\<lparr>cv_waiting_threads := rest\<rparr>)\<rparr>))"
    by (rule leaves_from [OF _ leaves_push_to_queue]) (rule mf_local, simp_all)
  then show ?thesis using Cons by (simp add: signal_def)
qed

lemma leaves_broadcast: "leaves m s (broadcast self c s)"
proof (induction self c s rule: broadcast.induct)
  case (1 self c s)
  show ?case
  proof (cases "cv_waiting_threads (cvs s c)")
    case Nil
    then show ?thesis by (subst broadcast.simps) (simp add: mf_refl)
  next
    case (Cons h rest)
    let ?s1 = "s\<lparr>cvs := (cvs s)(c := (cvs s c)\<lparr>cv_waiting_threads := rest\<rparr>)\<rparr>"
    have p: "leaves m s (push_to_queue self (Some h) ?s1)"
      by (rule leaves_from [OF _ leaves_push_to_queue]) (rule mf_local, simp_all)
    show ?thesis
    proof (cases "push_to_queue self (Some h) ?s1")
      case (Returns s2)
      have "leaves m s2 (broadcast self c s2)" using "1.IH" [OF Cons Returns] .
      moreover have "mutex_frame m s s2" using p Returns by simp
      moreover have "broadcast self c s = broadcast self c s2"
        using Cons Returns by (subst broadcast.simps) simp
      ultimately show ?thesis using leaves_from by simp
    next
      case (Switches x y)
      then show ?thesis using push_to_queue_kind by blast
    next
      case (Throws x)
      then show ?thesis using push_to_queue_kind by blast
    next
      case Aborts
      then have "broadcast self c s = Aborts" using Cons by (subst broadcast.simps) simp
      then show ?thesis by simp
    qed
  qed
qed

lemma mf_TCB_ctor: "TCB_ctor s = (a, s1) \<Longrightarrow> mutex_frame m s s1"
  by (auto simp: TCB_ctor_def mutex_frame_def)

lemma leaves_thread_ctor: "leaves m s (thread_ctor self func s)"
proof -
  obtain a s1 where c: "TCB_ctor s = (a, s1)" by (cases "TCB_ctor s")
  have "leaves m s (push_to_queue self (Some a) s1)"
    using leaves_from [OF mf_TCB_ctor [OF c] leaves_push_to_queue] .
  then show ?thesis using c by (simp add: thread_ctor_def)
qed

lemma leaves_yield: "leaves m s (yield self s)"
proof (cases "ready_threads s")
  case Nil
  then show ?thesis by (simp add: yield_def mf_refl)
next
  case (Cons n rest)
  let ?s2 = "(set_curr_thread self (Some n) s)\<lparr>ready_threads := rest\<rparr>"
  have f2: "mutex_frame m s ?s2" by (rule mf_local) simp_all
  have k: "leaves m s3 (case curr_thread (cpus s3 self) of None \<Rightarrow> Aborts
              | Some cu \<Rightarrow> Switches Swap_yield (set_status cu RUNNING s3))" for s3
    by (cases "curr_thread (cpus s3 self)") (auto intro!: mf_local)
  have "leaves m ?s2 (and_then (push_to_queue self (curr_thread (cpus s self)) ?s2) (\<lambda>s3.
              case curr_thread (cpus s3 self) of None \<Rightarrow> Aborts
              | Some cu \<Rightarrow> Switches Swap_yield (set_status cu RUNNING s3)))"
    by (rule leaves_and_then [OF leaves_push_to_queue]) (rule k)
  then show ?thesis
    using Cons leaves_from [OF f2] by (simp add: yield_def Let_def)
qed

lemma leaves_join: "leaves m s (join self h s)"
proof (cases h)
  case None
  then show ?thesis by (simp add: join_def mf_refl)
next
  case (Some target)
  show ?thesis
  proof (cases "curr_thread (cpus s self)")
    case None
    then show ?thesis using Some by (simp add: join_def mf_refl)
  next
    case t: (Some t)
    let ?s1 = "set_status t BLOCKED s"
    let ?s2 = "?s1\<lparr>tcbs := (tcbs ?s1)(target := (tcbs ?s1 target)
                             \<lparr>join_q := join_q (tcbs ?s1 target) @ [t]\<rparr>)\<rparr>"
    have "mutex_frame m s ?s2" by (rule mf_local) simp_all
    then have "leaves m s (get_next_thread self ?s2)"
      using leaves_get_next_thread leaves_from by blast
    then show ?thesis using Some t by (simp add: join_def Let_def mf_refl)
  qed
qed

lemma leaves_drain_join_q: "leaves m s (drain_join_q self s)"
proof (induction self s rule: drain_join_q.induct)
  case (1 self s)
  show ?case
  proof (cases "curr_thread (cpus s self)")
    case None
    then show ?thesis by (subst drain_join_q.simps) simp
  next
    case (Some t)
    show ?thesis
    proof (cases "join_q (tcbs s t)")
      case Nil
      then show ?thesis using Some by (subst drain_join_q.simps) (simp add: mf_refl)
    next
      case (Cons h rest)
      let ?s1 = "s\<lparr>tcbs := (tcbs s)(t := (tcbs s t)\<lparr>join_q := rest\<rparr>)\<rparr>"
      have p: "leaves m s (push_to_queue self (Some h) ?s1)"
        by (rule leaves_from [OF _ leaves_push_to_queue]) (rule mf_local, simp_all)
      show ?thesis
      proof (cases "push_to_queue self (Some h) ?s1")
        case (Returns s2)
        have "leaves m s2 (drain_join_q self s2)" using "1.IH" [OF Some Cons Returns] .
        moreover have "mutex_frame m s s2" using p Returns by simp
        moreover have "drain_join_q self s = drain_join_q self s2"
          using Some Cons Returns by (subst drain_join_q.simps) simp
        ultimately show ?thesis using leaves_from by simp
      next
        case (Switches x y)
        then show ?thesis using push_to_queue_kind by blast
      next
        case (Throws x)
        then show ?thesis using push_to_queue_kind by blast
      next
        case Aborts
        then have "drain_join_q self s = Aborts"
          using Some Cons by (subst drain_join_q.simps) simp
        then show ?thesis by simp
      qed
    qed
  qed
qed

lemma leaves_thread_execution: "leaves m s (thread_execution self s)"
proof -
  have k: "leaves m s1 (case curr_thread (cpus s1 self) of
         None \<Rightarrow> Aborts
       | Some t \<Rightarrow>
           (let s2 = set_status t FINISHED s1;
                s3 = s2\<lparr>finished_threads := finished_threads s2 @ [t]\<rparr>
            in if ready_threads s3 \<noteq> [] then
                 (let next = hd (ready_threads s3);
                      s4 = set_curr_thread self (Some next) s3;
                      s5 = s4\<lparr>ready_threads := tl (ready_threads s4)\<rparr>
                  in Switches Set_context (set_status next RUNNING s5))
               else suspend_cpu self s3))" for s1
  proof (cases "curr_thread (cpus s1 self)")
    case None
    then show ?thesis by simp
  next
    case (Some t)
    let ?s3 = "(set_status t FINISHED s1)\<lparr>finished_threads := finished_threads s1 @ [t]\<rparr>"
    have f: "mutex_frame m s1 ?s3" by (rule mf_local) simp_all
    have "leaves m s1 (suspend_cpu self ?s3)"
      using leaves_from [OF f leaves_suspend_cpu] .
    moreover have "mutex_frame m s1 (set_status n RUNNING
                     ((set_curr_thread self (Some n) ?s3)\<lparr>ready_threads := rest\<rparr>))" for n rest
      by (rule mf_local) simp_all
    ultimately show ?thesis using Some by (simp add: Let_def)
  qed
  show ?thesis
    unfolding thread_execution_def
    by (rule leaves_and_then [OF leaves_drain_join_q]) (rule k)
qed

lemma leaves_timer: "leaves m s (timer_interrupt_handler self s)"
  by (simp add: timer_interrupt_handler_def mf_refl leaves_yield)

lemma leaves_sweep: "leaves m s (clear_finished_threads prev s)"
  using clear_finished_loop_outcome [of prev "finished_threads s" s]
  by (auto simp: clear_finished_threads_def mf_refl)

lemma leaves_get_next_thread_resumed: "leaves m s (get_next_thread_resumed w prev s)"
  by (simp add: get_next_thread_resumed_def leaves_sweep mf_refl)

lemma leaves_cpu_ctor:
  "leaves m s (cpu_ctor self func s)"
proof -
  let ?s2 = "s\<lparr>booted := True, num_cpus := num_cpus s + 1\<rparr>"
  obtain idle s3 where c3: "TCB_ctor ?s2 = (idle, s3)" by (cases "TCB_ctor ?s2")
  let ?s4 = "s3\<lparr>cpus := (cpus s3)(self := (cpus s3 self)\<lparr>suspended_thread := Some idle\<rparr>)\<rparr>"
  have "mutex_frame m s ?s2" by (rule mf_local) simp_all
  then have f3: "mutex_frame m s s3" using mf_TCB_ctor [OF c3] mf_trans by blast
  have "mutex_frame m s3 ?s4" by (rule mf_local) simp_all
  then have f4: "mutex_frame m s ?s4" using f3 mf_trans by blast
  show ?thesis
  proof (cases func)
    case None
    then show ?thesis
      using c3 leaves_from [OF f4 leaves_begin_process] by (simp add: cpu_ctor_def Let_def)
  next
    case (Some f)
    obtain first s5 where c5: "TCB_ctor ?s4 = (first, s5)" by (cases "TCB_ctor ?s4")
    have f5: "mutex_frame m s s5" using f4 mf_TCB_ctor [OF c5] mf_trans by blast
    have "leaves m s5 (and_then (push_to_queue self (Some first) s5) (begin_process self))"
      by (rule leaves_and_then [OF leaves_push_to_queue]) (rule leaves_begin_process)
    then show ?thesis
      using c3 c5 Some leaves_from [OF f5] by (simp add: cpu_ctor_def Let_def)
  qed
qed


lemma leaves_internal_lock:
  assumes "m' \<noteq> m \<or> \<not> free (mutexes s m)"
  shows "leaves m s (internal_lock self m' s)"
proof (cases "curr_thread (cpus s self)")
  case None
  then show ?thesis by (simp add: internal_lock_def)
next
  case (Some t)
  let ?s2 = "(set_status t BLOCKED s)\<lparr>mutexes := (mutexes s)(m' := (mutexes s m')
                          \<lparr>waiting_threads := waiting_threads (mutexes s m') @ [t]\<rparr>)\<rparr>"
  have "mutex_frame m s ?s2" by (rule mf_local) simp_all
  then have 1: "leaves m s (get_next_thread self ?s2)"
    using leaves_get_next_thread leaves_from by blast
  show ?thesis
  proof (cases "free (mutexes s m')")
    case True
    then have "m' \<noteq> m" using assms by auto
    then have "mutex_frame m s (s\<lparr>mutexes := (mutexes s)(m' := (mutexes s m')
                 \<lparr>thread_holding_lock := sint (tcb_id (tcbs s t)), free := False\<rparr>)\<rparr>)"
      by (intro mf_local) simp_all
    then show ?thesis using Some True by (simp add: internal_lock_def)
  next
    case False
    then show ?thesis using Some 1 by (simp add: internal_lock_def Let_def)
  qed
qed

lemma leaves_internal_unlock_other:
  assumes "m' \<noteq> m"
  shows "leaves m s (internal_unlock self m' s)"
proof (cases "curr_thread (cpus s self)")
  case None
  then show ?thesis by (simp add: internal_unlock_def)
next
  case (Some t)
  have 1: "mutex_frame m s (s\<lparr>mutexes := (mutexes s)(m' := (mutexes s m')\<lparr>free := True\<rparr>)\<rparr>)"
    using assms by (intro mf_local) simp_all
  have 2: "leaves m s (push_to_queue self (Some w)
             (s\<lparr>mutexes := (mutexes s)(m' := (mutexes s m')\<lparr>waiting_threads := ws,
                     thread_holding_lock := sint (tcb_id (tcbs s w)), free := False\<rparr>)\<rparr>))" for w ws
    using assms by (intro leaves_from [OF _ leaves_push_to_queue] mf_local) simp_all
  show ?thesis
    using Some 1 2 by (auto simp: internal_unlock_def Let_def mf_refl split: list.splits)
qed

lemma internal_unlock_not_owner:
  "curr_thread (cpus s self) = Some u \<Longrightarrow>
   thread_holding_lock (mutexes s m) \<noteq> sint (tcb_id (tcbs s u)) \<Longrightarrow>
   internal_unlock self m s = Throws s"
  by (simp add: internal_unlock_def)

lemma wait_not_owner:
  "curr_thread (cpus s self) = Some u \<Longrightarrow>
   thread_holding_lock (mutexes s m) \<noteq> sint (tcb_id (tcbs s u)) \<Longrightarrow>
   wait self c m s = Throws s"
  by (simp add: wait_def)

lemma leaves_wait_other:
  assumes "mtx \<noteq> m"
  shows "leaves m s (wait self c mtx s)"
proof (cases "curr_thread (cpus s self)")
  case None
  then show ?thesis by (simp add: wait_def)
next
  case (Some t)
  have k: "leaves m s1 (case curr_thread (cpus s1 self) of None \<Rightarrow> Aborts
            | Some t1 \<Rightarrow>
                (let s2 = set_status t1 BLOCKED s1;
                     s3 = s2\<lparr>cvs := (cvs s2)(c := (cvs s2 c)
                              \<lparr>cv_waiting_threads := cv_waiting_threads (cvs s2 c) @ [t1]\<rparr>)\<rparr>
                 in get_next_thread self s3))" for s1
  proof (cases "curr_thread (cpus s1 self)")
    case None
    then show ?thesis by simp
  next
    case (Some t1)
    let ?s3 = "(set_status t1 BLOCKED s1)\<lparr>cvs := (cvs s1)(c := (cvs s1 c)
                  \<lparr>cv_waiting_threads := cv_waiting_threads (cvs s1 c) @ [t1]\<rparr>)\<rparr>"
    have "mutex_frame m s1 ?s3" by (rule mf_local) simp_all
    then have "leaves m s1 (get_next_thread self ?s3)"
      using leaves_get_next_thread leaves_from by blast
    then show ?thesis using Some by (simp add: Let_def)
  qed
  have "leaves m s (and_then (internal_unlock self mtx s) (\<lambda>s1.
          case curr_thread (cpus s1 self) of None \<Rightarrow> Aborts
            | Some t1 \<Rightarrow>
                (let s2 = set_status t1 BLOCKED s1;
                     s3 = s2\<lparr>cvs := (cvs s2)(c := (cvs s2 c)
                              \<lparr>cv_waiting_threads := cv_waiting_threads (cvs s2 c) @ [t1]\<rparr>)\<rparr>
                 in get_next_thread self s3)))"
    by (rule leaves_and_then [OF leaves_internal_unlock_other [OF assms]]) (rule k)
  then show ?thesis
    using Some by (simp add: wait_def mf_refl)
qed

lemma leaves_wait_resumed:
  assumes "m' \<noteq> m \<or> \<not> free (mutexes s m)"
  shows "leaves m s (wait_resumed w prev self m' s)"
proof -
  have "leaves m s1 (internal_lock self m' s1)"
    if "get_next_thread_resumed w prev s = Returns s1" for s1
  proof -
    have "s1 = s" using that
      by (auto simp: get_next_thread_resumed_def split: if_splits
               dest: clear_finished_threads_same)
    then show ?thesis using leaves_internal_lock [OF assms] by simp
  qed
  then show ?thesis
    unfolding wait_resumed_def
    by (intro leaves_and_then [OF leaves_get_next_thread_resumed])
qed

text \<open>Every call other than a release of \<open>m\<close> by a thread with the owner's id.\<close>

lemma leaves_run:
  assumes c: "curr_thread (cpus s self) = Some u"
    and o: "owns w m s"
    and r: "\<not> (releases call m \<and> sint (tcb_id (tcbs s u)) = sint (tcb_id (tcbs s w)))"
  shows "leaves m s (run self call s)"
proof (cases call)
  case (Lock m')
  then show ?thesis using o leaves_internal_lock [of m' m s self]
    by (simp add: lock_def owns_def)
next
  case (Unlock m')
  show ?thesis
  proof (cases "m' = m")
    case True
    then have "thread_holding_lock (mutexes s m) \<noteq> sint (tcb_id (tcbs s u))"
      using r o Unlock by (simp add: owns_def)
    then show ?thesis
      using Unlock True internal_unlock_not_owner [OF c] by (simp add: unlock_def mf_refl)
  next
    case False
    then show ?thesis using Unlock leaves_internal_unlock_other by (simp add: unlock_def)
  qed
next
  case (Wait cv m')
  show ?thesis
  proof (cases "m' = m")
    case True
    then have "thread_holding_lock (mutexes s m) \<noteq> sint (tcb_id (tcbs s u))"
      using r o Wait by (simp add: owns_def)
    then show ?thesis
      using Wait True wait_not_owner [OF c] by (simp add: mf_refl)
  next
    case False
    then show ?thesis using Wait leaves_wait_other by simp
  qed
next
  case (Wait_resumed sw prev m')
  then show ?thesis using o leaves_wait_resumed [of m' m s sw prev self]
    by (simp add: owns_def)
qed (simp_all add: leaves_thread_ctor leaves_yield leaves_join leaves_signal leaves_broadcast
       leaves_thread_execution yield_resumed_def leaves_sweep leaves_get_next_thread_resumed)

lemma mutex_frame_owns:
  "mutex_frame m s s' \<Longrightarrow> w < heap_top s \<Longrightarrow> owns w m s \<Longrightarrow> w < heap_top s' \<and> owns w m s'"
  by (auto simp: mutex_frame_def owns_def)

lemma other_step_owns:
  assumes "other_step w m s s'" and "w < heap_top s" and "owns w m s"
  shows "w < heap_top s' \<and> owns w m s'"
  using assms
proof (induction rule: other_step.induct)
  case (other_cpu_start self func s s')
  then show ?case using leaves_cpu_ctor [of m s self func] mutex_frame_owns
    by (auto simp: leaves_def)
next
  case (other_call self s u c s')
  then show ?case using leaves_run [of s self u w m c] mutex_frame_owns
    by (auto simp: leaves_def)
next
  case (other_ipi self s s')
  then show ?case using leaves_ipi_handler [of m s self] mutex_frame_owns
    by (auto simp: leaves_def)
next
  case (other_timer self s s')
  then show ?case using leaves_timer [of m s self] mutex_frame_owns
    by (auto simp: leaves_def)
next
  case (other_idle s self)
  then show ?case by (simp add: suspend_helper_def owns_def)
qed

lemma window_owns:
  assumes "(other_step w m)\<^sup>*\<^sup>* s s'" and "w < heap_top s" and "owns w m s"
  shows "w < heap_top s' \<and> owns w m s'"
  using assms by (induction rule: rtranclp_induct) (auto dest: other_step_owns)

lemma other_step_step: "other_step w m s s' \<Longrightarrow> step s s'"
  by (induction rule: other_step.induct) (auto intro: step.intros)

lemma step_other_or_release:
  assumes "step s s'"
  shows "other_step w m s s' \<or>
     (\<exists>self u c. runs_user_thread self s \<and> curr_thread (cpus s self) = Some u \<and>
        releases c m \<and> sint (tcb_id (tcbs s u)) = sint (tcb_id (tcbs s w)) \<and>
        next_state (run self c s) = Some s')"
  using assms
proof (cases rule: step.cases)
  case (library_call self c)
  then obtain u where "curr_thread (cpus s self) = Some u"
    by (auto simp: runs_user_thread_def split: option.splits)
  then show ?thesis using library_call other_call [of self s u c m w s'] by blast
qed (auto intro: other_step.intros)


lemmas handoff_defs = concrete_defs handed_state_def resumed_state_def

lemma contended_state_guards:
  "\<exists>s1 s2 s3 s4 s5 s6.
     curr_thread (cpus boot_state 1) = None \<and> suspended_thread (cpus boot_state 1) = None \<and>
     cpu_ctor 1 None boot_state = Switches Set_context s1 \<and>
     curr_thread (cpus s1 1) = suspended_thread (cpus s1 1) \<and>
     suspended_thread (cpus s1 1) \<noteq> None \<and> 1 \<notin> set (sleeping_cpus s1) \<and>
     curr_thread (cpus (suspend_helper 1 s1) 0) = None \<and>
     suspended_thread (cpus (suspend_helper 1 s1) 0) = None \<and>
     cpu_ctor 0 (Some 0) (suspend_helper 1 s1) = Switches Set_context s2 \<and>
     runs_user_thread 0 s2 \<and>
     thread_ctor 0 (Some 0) s2 = Returns s3 \<and>
     runs_user_thread 0 s3 \<and>
     lock 0 0 s3 = Returns s4 \<and>
     curr_thread (cpus s4 1) = suspended_thread (cpus s4 1) \<and>
     suspended_thread (cpus s4 1) \<noteq> None \<and> 1 \<notin> set (sleeping_cpus s4) \<and>
     ipi_handler 1 s4 = Switches Swap_ipi_handler s5 \<and>
     runs_user_thread 1 s5 \<and>
     lock 1 0 s5 = Switches Swap_suspend_cpu s6 \<and>
     curr_thread (cpus s6 1) = suspended_thread (cpus s6 1) \<and>
     suspended_thread (cpus s6 1) \<noteq> None \<and> 1 \<notin> set (sleeping_cpus s6) \<and>
     contended_state = suspend_helper 1 s6"
  by (simp add: op_defs concrete_defs runs_user_thread_def Let_def eval_nat_numeral)

lemma contended_state_running: "running contended_state"
proof -
  obtain s1 s2 s3 s4 s5 s6 where p:
     "curr_thread (cpus boot_state 1) = None" "suspended_thread (cpus boot_state 1) = None"
     "cpu_ctor 1 None boot_state = Switches Set_context s1"
     "curr_thread (cpus s1 1) = suspended_thread (cpus s1 1)"
     "suspended_thread (cpus s1 1) \<noteq> None" "1 \<notin> set (sleeping_cpus s1)"
     "curr_thread (cpus (suspend_helper 1 s1) 0) = None"
     "suspended_thread (cpus (suspend_helper 1 s1) 0) = None"
     "cpu_ctor 0 (Some 0) (suspend_helper 1 s1) = Switches Set_context s2"
     "runs_user_thread 0 s2"
     "thread_ctor 0 (Some 0) s2 = Returns s3"
     "runs_user_thread 0 s3"
     "lock 0 0 s3 = Returns s4"
     "curr_thread (cpus s4 1) = suspended_thread (cpus s4 1)"
     "suspended_thread (cpus s4 1) \<noteq> None" "1 \<notin> set (sleeping_cpus s4)"
     "ipi_handler 1 s4 = Switches Swap_ipi_handler s5"
     "runs_user_thread 1 s5"
     "lock 1 0 s5 = Switches Swap_suspend_cpu s6"
     "curr_thread (cpus s6 1) = suspended_thread (cpus s6 1)"
     "suspended_thread (cpus s6 1) \<noteq> None" "1 \<notin> set (sleeping_cpus s6)"
     "contended_state = suspend_helper 1 s6"
    using contended_state_guards by blast
  have "sched_step boot_state s1"
    using sched_step.cpu_start [OF p(1,2), of None s1] p(3) by simp
  then have r1: "running s1" using running.boot running.step by blast
  have "sched_step s1 (suspend_helper 1 s1)" using sched_step.idle [OF p(4,5,6)] .
  then have r1': "running (suspend_helper 1 s1)" using r1 running.step by blast
  have "sched_step (suspend_helper 1 s1) s2"
    using sched_step.cpu_start [OF p(7,8), of "Some 0" s2] p(9) by simp
  then have r2: "running s2" using r1' running.step by blast
  have "sched_step s2 s3"
    using sched_step.library_call [OF p(10), of "Create (Some 0)" s3] p(11) by simp
  then have r3: "running s3" using r2 running.step by blast
  have "sched_step s3 s4" using sched_step.library_call [OF p(12), of "Lock 0" s4] p(13) by simp
  then have r4: "running s4" using r3 running.step by blast
  have "sched_step s4 s5" using sched_step.ipi [OF p(14,15,16), of s5] p(17) by simp
  then have r5: "running s5" using r4 running.step by blast
  have "sched_step s5 s6" using sched_step.library_call [OF p(18), of "Lock 0" s6] p(19) by simp
  then have r6: "running s6" using r5 running.step by blast
  have "sched_step s6 (suspend_helper 1 s6)" using sched_step.idle [OF p(20,21,22)] .
  then show ?thesis using r6 running.step p(23) by metis
qed

lemma contended_state_reachable: "reachable contended_state"
  using contended_state_running by (rule running_reachable)

lemma handed_state_reached: "unlock 0 0 contended_state = Returns handed_state"
  by (simp add: op_defs handoff_defs Let_def eval_nat_numeral fun_eq_iff)

lemma resumed_state_reached:
  "lock 0 0 handed_state = Switches Swap_get_next_thread resumed_state"
  by (simp add: op_defs handoff_defs Let_def eval_nat_numeral fun_eq_iff)






text \<open>
  In the running system a thread on a waitlist is an allocated TCB, and the assertions met by
  \<^verbatim>\<open>unlock\<close> pass: after the owner's \<^verbatim>\<open>unlock\<close> the head of the waitlist owns the mutex
  until a thread with its id releases it.
\<close>

lemma waiter_allocated:
  assumes "reachable s" and "w \<in> set (waiting_threads (mutexes s m))"
  shows "w < heap_top s"
proof -
  have ok: "vlists_ok (view_of s)"
    using reachable_Inv [OF assms(1)] by (simp add: Inv_def vJ_def)
  have "w \<in> set (wl (view_of s) (On_mutex m))" using assms(2) by (simp add: view_of_def)
  then have "w < heap_limit (view_of s)" by (rule vl_bound [OF ok])
  then show ?thesis by (simp add: view_of_def)
qed

lemma running_handoff_window:
  assumes "running s" and "runs_user_thread self s"
    and "curr_thread (cpus s self) = Some t"
    and "thread_holding_lock (mutexes s m) = sint (tcb_id (tcbs s t))"
    and "waiting_threads (mutexes s m) = w # ws"
  shows "\<exists>s'. unlock self m s = Returns s' \<and> owns w m s' \<and>
               (\<forall>s1. (other_step w m)\<^sup>*\<^sup>* s' s1 \<longrightarrow> owns w m s1)"
proof -
  let ?s' = "s\<lparr>mutexes := (mutexes s)(m := (mutexes s m)\<lparr>waiting_threads := ws,
                     thread_holding_lock := sint (tcb_id (tcbs s w)), free := False\<rparr>),
                tcbs := (tcbs s)(w := (tcbs s w)\<lparr>status := READY\<rparr>),
                ready_threads := ready_threads s @ [w],
                sleeping_cpus := drop 1 (sleeping_cpus s),
                ipi_sent := ipi_sent s @ take 1 (sleeping_cpus s)\<rparr>"
  have u: "unlock self m s = Returns ?s'" using running_unlock_handoff [OF assms] .
  have "w < heap_top s"
    using waiter_allocated [OF running_reachable [OF assms(1)], of w m] assms(5) by simp
  then have a: "w < heap_top ?s'" by simp
  have o: "owns w m ?s'" by (simp add: owns_def)
  have "owns w m s1" if "(other_step w m)\<^sup>*\<^sup>* ?s' s1" for s1
    using window_owns [OF that a o] by simp
  then show ?thesis using u o by blast
qed





end
